theory Spec2Isabelle
  imports Main "HOL-Library.Sublist" "HOL-Library.Word"
begin

section \<open>Python strings and POSIX path functions\<close>

text \<open>
  Python strings are modelled as \<^typ>\<open>string\<close>, a character standing for the code
  point of its number, below 256.  Passwords, which may hold any code point, are lists
  of code points (see the authorizer).  The path functions are those of
  \<^verbatim>\<open>posixpath\<close>, the \<^verbatim>\<open>os.path\<close> of a POSIX host: the separator is \<^verbatim>\<open>/\<close>,
  and \<^verbatim>\<open>os.path.normcase\<close> returns its argument unchanged.
\<close>

definition sep :: string where
  "sep = ''/''"

definition startswith :: "string \<Rightarrow> string \<Rightarrow> bool" where
  "startswith s p = (take (length p) s = p)"

definition endswith :: "string \<Rightarrow> string \<Rightarrow> bool" where
  "endswith s p = (length p \<le> length s \<and> drop (length s - length p) s = p)"

text \<open>\<^verbatim>\<open>s.split(c)\<close> for a one-character separator: never the empty list.\<close>

fun split_on :: "char \<Rightarrow> string \<Rightarrow> string list" where
  "split_on c [] = [[]]"
| "split_on c (x # xs) =
     (if x = c then [] # split_on c xs
      else (x # hd (split_on c xs)) # tl (split_on c xs))"

text \<open>\<^verbatim>\<open>s.join(comps)\<close>.\<close>

fun str_join :: "string \<Rightarrow> string list \<Rightarrow> string" where
  "str_join s [] = []"
| "str_join s [x] = x"
| "str_join s (x # y # ys) = x @ s @ str_join s (y # ys)"

text \<open>\<^verbatim>\<open>s.lstrip(chars)\<close> and \<^verbatim>\<open>s.replace(a, b)\<close> for one-character \<^verbatim>\<open>a\<close>, \<^verbatim>\<open>b\<close>.\<close>

definition lstrip :: "string \<Rightarrow> string \<Rightarrow> string" where
  "lstrip s chars = dropWhile (\<lambda>c. c \<in> set chars) s"

definition replace_char :: "char \<Rightarrow> char \<Rightarrow> string \<Rightarrow> string" where
  "replace_char a b s = map (\<lambda>c. if c = a then b else c) s"

text \<open>
  \<^verbatim>\<open>s.lower()\<close>.  Among the code points below 256 Python lower-cases the letters
  \<^verbatim>\<open>A\<close> to \<^verbatim>\<open>Z\<close> (65 to 90) and the accented capital letters 192 to 214 and 216 to 222,
  each to the code point 32 above it, and leaves every other code point as it is.
\<close>

definition lower_char :: "char \<Rightarrow> char" where
  "lower_char c =
     (let n = (of_char c :: nat)
      in if (65 \<le> n \<and> n \<le> 90) \<or> (192 \<le> n \<and> n \<le> 214) \<or> (216 \<le> n \<and> n \<le> 222)
         then char_of (n + 32) else c)"

definition lower :: "string \<Rightarrow> string" where
  "lower s = map lower_char s"

text \<open>\<^verbatim>\<open>posixpath.normcase\<close>.\<close>

definition normcase :: "string \<Rightarrow> string" where
  "normcase s = s"

text \<open>\<^verbatim>\<open>posixpath.isabs\<close>.\<close>

definition isabs :: "string \<Rightarrow> bool" where
  "isabs s = startswith s sep"

text \<open>
  \<^verbatim>\<open>posixpath.normpath\<close>.  One or two initial slashes are kept, three or more become
  one; the loop over the components is \<open>normpath_step\<close>, folded from the left.
\<close>

definition initial_slashes :: "string \<Rightarrow> nat" where
  "initial_slashes path =
     (if startswith path sep
      then (if startswith path (sep @ sep) \<and> \<not> startswith path (sep @ sep @ sep) then 2 else 1)
      else 0)"

definition normpath_step :: "nat \<Rightarrow> string list \<Rightarrow> string \<Rightarrow> string list" where
  "normpath_step ini new_comps seg =
     (if seg = [] \<or> seg = ''.'' then new_comps
      else if seg \<noteq> ''..'' \<or> (ini = 0 \<and> new_comps = [])
              \<or> (new_comps \<noteq> [] \<and> last new_comps = ''..'')
           then new_comps @ [seg]
      else if new_comps \<noteq> [] then butlast new_comps
      else new_comps)"

definition normpath :: "string \<Rightarrow> string" where
  "normpath path =
     (if path = [] then ''.''
      else
        let ini = initial_slashes path;
            comps = foldl (normpath_step ini) [] (split_on CHR ''/'' path);
            p = concat (replicate ini sep) @ str_join sep comps
        in if p = [] then ''.'' else p)"

text \<open>\<^verbatim>\<open>posixpath.join(a, *p)\<close>.\<close>

definition join_step :: "string \<Rightarrow> string \<Rightarrow> string" where
  "join_step path b =
     (if startswith b sep \<or> path = [] then b
      else if endswith path sep then path @ b
      else path @ sep @ b)"

definition path_join :: "string \<Rightarrow> string list \<Rightarrow> string" where
  "path_join a ps = foldl join_step a ps"

section \<open>Errors\<close>

text \<open>
  Every exception the modelled code can raise is a value.  \<open>AuthorizerError_user_exists u\<close>
  is \<^verbatim>\<open>AuthorizerError(f"user {u!r} already exists")\<close>, \<open>ValueError_no_such_permission p\<close>
  the \<^verbatim>\<open>ValueError\<close> of the permission check; the others carry the message or the key.
  \<open>UnicodeEncodeError\<close> is what \<^verbatim>\<open>str.encode("utf-8")\<close> raises.
\<close>

datatype error =
    AuthorizerError_user_exists string
  | ValueError_no_such_permission char
  | AuthenticationFailed string
  | FilesystemError string
  | KeyError string
  | TypeError
  | UnicodeEncodeError
  | OSError string

section \<open>The mount registry and the virtual filesystem (filesystem.py)\<close>

text \<open>
  A mount table is a Python dict from mount names to real paths, kept as an association
  list in insertion order.  \<open>USER_DIR_MAP\<close> is the process-wide dict from user names to
  mount tables.
\<close>

type_synonym dir_map = "(string \<times> string) list"

type_synonym user_dir_map = "string \<rightharpoonup> dir_map"

definition dict_get :: "('k \<rightharpoonup> 'v) \<Rightarrow> 'k \<Rightarrow> 'v \<Rightarrow> 'v" where
  "dict_get m k d = (case m k of None \<Rightarrow> d | Some v \<Rightarrow> v)"

record filesystem =
  cwd :: string
  dir_map :: dir_map

text \<open>\<^verbatim>\<open>MultiDirFilesystem.__init__\<close>: the current directory starts at the root, and every
  real path of the user's mount table is normalised.\<close>

definition init_filesystem :: "user_dir_map \<Rightarrow> string \<Rightarrow> filesystem" where
  "init_filesystem udm username =
     \<lparr>cwd = ''/'',
      dir_map = map (\<lambda>(name, path). (name, normpath path)) (dict_get udm username [])\<rparr>"

text \<open>The loop shared by \<^verbatim>\<open>_is_virtual_path\<close>, \<^verbatim>\<open>isdir\<close> and \<^verbatim>\<open>rmdir\<close>: is the
  normalised path equal to a mount's real path?\<close>

fun is_mount_root :: "string list \<Rightarrow> string \<Rightarrow> bool" where
  "is_mount_root [] path_norm = False"
| "is_mount_root (real_base # rest) path_norm =
     (if normcase path_norm = normcase (normpath real_base) then True
      else is_mount_root rest path_norm)"

text \<open>The loop of \<^verbatim>\<open>validpath\<close>.\<close>

fun validpath_loop :: "string list \<Rightarrow> string \<Rightarrow> bool" where
  "validpath_loop [] path = False"
| "validpath_loop (real_base # rest) path =
     (let real_base = normpath real_base in
      if normcase path = normcase real_base then True
      else if startswith (normcase path) (normcase real_base @ sep) then True
      else validpath_loop rest path)"

definition validpath :: "filesystem \<Rightarrow> string \<Rightarrow> bool" where
  "validpath fs path =
     (if path = ''/'' then True
      else validpath_loop (map snd (dir_map fs)) (normpath path))"

text \<open>
  \<^verbatim>\<open>AbstractedFS.ftpnorm\<close> of the FTP library, which \<^verbatim>\<open>MultiDirFilesystem\<close> inherits:
  the path is made absolute against the current directory and normalised, a double
  slash at its start is collapsed, and a result that is not absolute becomes \<^verbatim>\<open>"/"\<close>.
\<close>

fun strip_double_slash :: "string \<Rightarrow> string" where
  "strip_double_slash (a # b # rest) =
     (if a = CHR ''/'' \<and> b = CHR ''/'' then strip_double_slash (b # rest) else a # b # rest)"
| "strip_double_slash p = p"

definition ftpnorm :: "filesystem \<Rightarrow> string \<Rightarrow> string" where
  "ftpnorm fs ftppath =
     (let p = (if isabs ftppath then normpath ftppath
               else normpath (path_join (cwd fs) [ftppath]));
          p = strip_double_slash p
      in if \<not> isabs p then ''/'' else p)"

text \<open>\<^verbatim>\<open>_find_mount\<close>: the first mount name equal to the name when both are lower-cased.\<close>

fun find_mount_loop :: "string list \<Rightarrow> string \<Rightarrow> string option" where
  "find_mount_loop [] name_lower = None"
| "find_mount_loop (mount_name # rest) name_lower =
     (if lower mount_name = name_lower then Some mount_name
      else find_mount_loop rest name_lower)"

definition find_mount :: "filesystem \<Rightarrow> string \<Rightarrow> string option" where
  "find_mount fs name = find_mount_loop (map fst (dir_map fs)) (lower name)"

text \<open>\<^verbatim>\<open>_resolve\<close>: the mount name, or \<open>None\<close> for the root, and the remaining segments.\<close>

definition resolve :: "filesystem \<Rightarrow> string \<Rightarrow> string option \<times> string list" where
  "resolve fs ftppath =
     (let normed = ftpnorm fs ftppath;
          parts = filter (\<lambda>p. p \<noteq> []) (split_on CHR ''/'' normed)
      in case parts of
           [] \<Rightarrow> (None, [])
         | first # others \<Rightarrow>
             (case find_mount fs first of
                None \<Rightarrow> (Some first, others)
              | Some mount_name \<Rightarrow> (Some mount_name, others)))"

definition to_absolute_ftppath :: "filesystem \<Rightarrow> string \<Rightarrow> string" where
  "to_absolute_ftppath fs ftppath =
     (let normed = ftpnorm fs ftppath
      in if \<not> startswith normed ''/'' then normpath (cwd fs @ ''/'' @ normed) else normed)"

text \<open>
  \<^verbatim>\<open>ftp2fs\<close>.  When \<^verbatim>\<open>_resolve\<close> returns no mount name, the name \<^verbatim>\<open>None\<close> is in no mount
  table and \<^verbatim>\<open>os.path.join("__invalid__", None)\<close> raises \<^verbatim>\<open>TypeError\<close>.
\<close>

definition ftp2fs :: "filesystem \<Rightarrow> string \<Rightarrow> error + string" where
  "ftp2fs fs ftppath =
     (let ftppath = to_absolute_ftppath fs ftppath;
          normed = ftpnorm fs ftppath
      in if normed = ''/'' then Inr normed
         else
           (case resolve fs ftppath of
              (None, sub_parts) \<Rightarrow> Inl TypeError
            | (Some mount_name, sub_parts) \<Rightarrow>
                (case map_of (dir_map fs) mount_name of
                   Some real_base \<Rightarrow>
                     (if sub_parts \<noteq> [] then Inr (normpath (path_join real_base sub_parts))
                      else Inr real_base)
                 | None \<Rightarrow> Inr (normpath (path_join ''__invalid__'' [mount_name])))))"

text \<open>\<^verbatim>\<open>fs2ftp\<close>: the loop over the mounts, first match wins, and \<^verbatim>\<open>"/"\<close> without a match.\<close>

fun fs2ftp_loop :: "dir_map \<Rightarrow> string \<Rightarrow> string" where
  "fs2ftp_loop [] fspath = ''/''"
| "fs2ftp_loop ((mount_name, real_base) # rest) fspath =
     (let real_base_norm = normpath real_base in
      if normcase fspath = normcase real_base_norm then ''/'' @ mount_name
      else if startswith (normcase fspath) (normcase real_base_norm @ sep) then
        (let rel = lstrip (drop (length real_base_norm) fspath) sep
         in ''/'' @ mount_name @ ''/'' @ replace_char CHR ''/'' CHR ''/'' rel)
      else fs2ftp_loop rest fspath)"

definition fs2ftp :: "filesystem \<Rightarrow> string \<Rightarrow> string" where
  "fs2ftp fs fspath = fs2ftp_loop (dir_map fs) (normpath fspath)"

text \<open>
  For the statements about path translation: a plain segment is a path component
  that is a name, not empty, not \<^verbatim>\<open>.\<close> or \<^verbatim>\<open>..\<close>, and without a separator.
\<close>

definition plain_segment :: "string \<Rightarrow> bool" where
  "plain_segment c = (c \<noteq> [] \<and> c \<noteq> ''.'' \<and> c \<noteq> ''..'' \<and> CHR ''/'' \<notin> set c)"

text \<open>
  The operating system is a collaborator: its state is a type parameter and its calls
  are the fields of \<open>os_api\<close>.  A call that can fail returns the error or the new state.
\<close>

record 'os os_api =
  os_path_isdir :: "'os \<Rightarrow> string \<Rightarrow> bool"
  os_makedirs :: "'os \<Rightarrow> string \<Rightarrow> (error + unit) \<times> 'os"
  os_rmdir :: "'os \<Rightarrow> string \<Rightarrow> (error + unit) \<times> 'os"
  ftpserver_bind :: "'os \<Rightarrow> string \<times> int \<Rightarrow> (error + unit) \<times> 'os"

definition isdir :: "'os os_api \<Rightarrow> filesystem \<Rightarrow> 'os \<Rightarrow> string \<Rightarrow> bool" where
  "isdir api fs os path =
     (if path = ''/'' then True
      else
        let path_norm = (if path \<noteq> ''/'' then normpath path else path) in
        if is_mount_root (map snd (dir_map fs)) path_norm then True
        else os_path_isdir api os path)"

definition rmdir :: "'os os_api \<Rightarrow> filesystem \<Rightarrow> 'os \<Rightarrow> string \<Rightarrow> (error + unit) \<times> 'os" where
  "rmdir api fs os path =
     (let path_norm = normpath path in
      if is_mount_root (map snd (dir_map fs)) path_norm
      then (Inl (FilesystemError ''Cannot remove a mount point.''), os)
      else os_rmdir api os path)"

section \<open>The authorizer (server.py)\<close>

text \<open>
  One entry of \<^verbatim>\<open>user_table\<close>.  \<open>operms\<close> is the dict of per-directory overrides, from
  a directory to the pair of its permission string and its recursive flag.
\<close>

record user =
  pwd :: string
  home :: string
  perm :: string
  operms :: "(string \<times> string \<times> bool) list"
  msg_login :: string
  msg_quit :: string

type_synonym user_table = "string \<rightharpoonup> user"

text \<open>\<^verbatim>\<open>DummyAuthorizer.has_user\<close> and \<^verbatim>\<open>DummyAuthorizer._check_permissions\<close> of the FTP
  library, which \<^verbatim>\<open>HashedAuthorizer\<close> inherits: a permission string may only hold the
  library's read and write permission letters.\<close>

definition has_user :: "user_table \<Rightarrow> string \<Rightarrow> bool" where
  "has_user tbl username = (tbl username \<noteq> None)"

definition read_perms :: string where
  "read_perms = ''elr''"

definition write_perms :: string where
  "write_perms = ''adfmwMT''"

fun check_permissions :: "string \<Rightarrow> string \<Rightarrow> error + unit" where
  "check_permissions username [] = Inr ()"
| "check_permissions username (p # ps) =
     (if p \<notin> set (read_perms @ write_perms) then Inl (ValueError_no_such_permission p)
      else check_permissions username ps)"

definition add_user ::
  "user_table \<Rightarrow> string \<Rightarrow> string \<Rightarrow> string \<Rightarrow> string \<Rightarrow> (error + unit) \<times> user_table" where
  "add_user tbl username password_hash homedir prm =
     (if has_user tbl username then (Inl (AuthorizerError_user_exists username), tbl)
      else
        case check_permissions username prm of
          Inl e \<Rightarrow> (Inl e, tbl)
        | Inr _ \<Rightarrow>
            (Inr (),
             tbl(username \<mapsto>
               \<lparr>pwd = password_hash, home = homedir, perm = prm, operms = [],
                msg_login = ''Login successful.'', msg_quit = ''Goodbye.''\<rparr>)))"

text \<open>The loop of \<^verbatim>\<open>has_perm\<close> over the overrides: the permission string of the first
  override that governs the path.\<close>

fun operm_for :: "(string \<times> string \<times> bool) list \<Rightarrow> string \<Rightarrow> string option" where
  "operm_for [] path = None"
| "operm_for ((dir, operm, recursive) # rest) path =
     (if path = dir \<or> (recursive \<and> startswith path (dir @ sep)) then Some operm
      else operm_for rest path)"

text \<open>The loop of \<^verbatim>\<open>has_perm\<close> over the mounted directories.\<close>

fun under_mount :: "string list \<Rightarrow> string \<Rightarrow> bool" where
  "under_mount [] path = False"
| "under_mount (real_base # rest) path =
     (let base = normcase (normpath real_base) in
      if path = base \<or> startswith path (base @ sep) then True
      else under_mount rest path)"

definition has_perm ::
  "user_dir_map \<Rightarrow> user_table \<Rightarrow> string \<Rightarrow> char \<Rightarrow> string option \<Rightarrow> error + bool" where
  "has_perm udm tbl username p path =
     (case tbl username of
        None \<Rightarrow> Inl (KeyError username)
      | Some u \<Rightarrow>
          (case path of
             None \<Rightarrow> Inr (p \<in> set (perm u))
           | Some path \<Rightarrow>
               if path = ''/'' then Inr (p \<in> set (perm u))
               else
                 let path = normcase path in
                 (case operm_for (operms u) path of
                    Some operm \<Rightarrow> Inr (p \<in> set operm)
                  | None \<Rightarrow>
                      (if under_mount (map snd (dict_get udm username [])) path
                       then Inr (p \<in> set (perm u))
                       else Inr False))))"

text \<open>
  A password is a Python string that reaches the code from the network, from the command
  line or from a JSON document, so it may hold any code point, also a lone surrogate
  (55296 to 57343), which \<^verbatim>\<open>encode("utf-8")\<close> refuses with \<^verbatim>\<open>UnicodeEncodeError\<close>.  It is
  modelled as the list of its code points, natural numbers; those of a Python string are
  at most 1114111, which no statement below depends on.  \<open>utf8_sha256_hex\<close> is
  \<^verbatim>\<open>hashlib.sha256(s.encode("utf-8")).hexdigest()\<close>: the encoding fails exactly on a
  surrogate, and the parameter \<open>sha256_hex\<close> stands for the hexadecimal SHA-256 digest
  of the encoding of a string that has none.
\<close>

type_synonym codepoints = "nat list"

definition str_codepoints :: "string \<Rightarrow> codepoints" where
  "str_codepoints s = map of_char s"

definition is_surrogate :: "nat \<Rightarrow> bool" where
  "is_surrogate c = (55296 \<le> c \<and> c \<le> 57343)"

definition utf8_sha256_hex :: "(codepoints \<Rightarrow> string) \<Rightarrow> codepoints \<Rightarrow> error + string" where
  "utf8_sha256_hex sha256_hex s =
     (if \<exists>c \<in> set s. is_surrogate c then Inl UnicodeEncodeError else Inr (sha256_hex s))"

text \<open>
  \<^verbatim>\<open>validate_authentication\<close>.  \<open>compare_digest\<close> is \<^verbatim>\<open>hmac.compare_digest\<close> on two
  strings: equality, and a \<^verbatim>\<open>TypeError\<close> when one of them holds a character outside
  ASCII.  The authorizer's table is returned with the result.
\<close>

definition is_ascii :: "string \<Rightarrow> bool" where
  "is_ascii s = (\<forall>c \<in> set s. (of_char c :: nat) < 128)"

definition compare_digest :: "string \<Rightarrow> string \<Rightarrow> error + bool" where
  "compare_digest a b = (if is_ascii a \<and> is_ascii b then Inr (a = b) else Inl TypeError)"

text \<open>\<^verbatim>\<open>stored.split("$", 1)\<close> on a string that holds the separator.\<close>

definition split_first :: "char \<Rightarrow> string \<Rightarrow> string \<times> string" where
  "split_first c s = (takeWhile (\<lambda>x. x \<noteq> c) s, tl (dropWhile (\<lambda>x. x \<noteq> c) s))"

definition validate_authentication ::
  "(codepoints \<Rightarrow> string) \<Rightarrow> user_table \<Rightarrow> string \<Rightarrow> codepoints
     \<Rightarrow> (error + unit) \<times> user_table" where
  "validate_authentication sha256_hex tbl username password =
     (case tbl username of
        None \<Rightarrow> (Inl (AuthenticationFailed ''Authentication failed.''), tbl)
      | Some u \<Rightarrow>
          let stored = pwd u in
          if stored = [] then
            (Inl (AuthenticationFailed ''Password not configured. Run hash_password.py first.''),
             tbl)
          else if CHR ''$'' \<notin> set stored then
            (Inl (AuthenticationFailed ''Invalid password hash format.''), tbl)
          else
            let (salt, expected_hash) = split_first CHR ''$'' stored
            in (case utf8_sha256_hex sha256_hex (str_codepoints salt @ password) of
                  Inl e \<Rightarrow> (Inl e, tbl)
                | Inr actual_hash \<Rightarrow>
                    (case compare_digest actual_hash expected_hash of
                       Inl e \<Rightarrow> (Inl e, tbl)
                     | Inr same \<Rightarrow>
                         (if \<not> same
                          then (Inl (AuthenticationFailed ''Authentication failed.''), tbl)
                          else (Inr (), tbl)))))"

section \<open>The password hash tool (hash\_password.py)\<close>

text \<open>
  \<^verbatim>\<open>bytes.hex()\<close>: two lower-case hexadecimal digits for each byte.  \<open>hash_password\<close>
  takes the bytes that \<^verbatim>\<open>os.urandom(16)\<close> returned as its argument \<open>rand\<close>, and
  returns the verifier or the error of the encoding.
\<close>

definition hexdigits :: string where
  "hexdigits = ''0123456789abcdef''"

definition byte_hex :: "8 word \<Rightarrow> string" where
  "byte_hex b = [hexdigits ! (unat b div 16), hexdigits ! (unat b mod 16)]"

definition bytes_hex :: "8 word list \<Rightarrow> string" where
  "bytes_hex bs = concat (map byte_hex bs)"

definition hash_password ::
  "(codepoints \<Rightarrow> string) \<Rightarrow> 8 word list \<Rightarrow> codepoints \<Rightarrow> error + string" where
  "hash_password sha256_hex rand password =
     (let salt = bytes_hex rand
      in case utf8_sha256_hex sha256_hex (str_codepoints salt @ password) of
           Inl e \<Rightarrow> Inl e
         | Inr h \<Rightarrow> Inr (salt @ ''$'' @ h))"

text \<open>
  A stand-in digest for concrete runs: every code point in unary, closed by a zero.
  It is not SHA-256; it is ASCII and has no collisions, and only instantiates the
  theorems, which hold for every digest function.
\<close>

fun toy_digest :: "codepoints \<Rightarrow> string" where
  "toy_digest [] = []"
| "toy_digest (c # cs) = replicate c CHR ''1'' @ CHR ''0'' # toy_digest cs"

section \<open>Server bootstrap (server.py)\<close>

text \<open>
  The configuration is the parsed JSON document; a key that may be absent is an option.
\<close>

record user_cfg =
  cfg_username :: "string option"
  cfg_password_hash :: "string option"
  cfg_permissions :: "string option"
  cfg_directories :: "dir_map option"

record config =
  cfg_users :: "user_cfg list option"
  cfg_banner :: "string option"
  cfg_passive_ports :: "int list option"
  cfg_host :: "string option"
  cfg_port :: "int option"
  cfg_max_connections :: "int option"
  cfg_max_connections_per_ip :: "int option"

definition get_default :: "'a option \<Rightarrow> 'a \<Rightarrow> 'a" where
  "get_default v d = (case v of None \<Rightarrow> d | Some x \<Rightarrow> x)"

text \<open>\<^verbatim>\<open>validate_directories\<close>: the inner loop over one user's mounts, and the outer loop
  over the users.\<close>

fun validate_dirs_of :: "'os os_api \<Rightarrow> dir_map \<Rightarrow> 'os \<Rightarrow> (error + unit) \<times> 'os" where
  "validate_dirs_of api [] os = (Inr (), os)"
| "validate_dirs_of api ((name, path) # rest) os =
     (let real_path = normpath path in
      if \<not> os_path_isdir api os real_path then
        (case os_makedirs api os real_path of
           (Inl e, os') \<Rightarrow> (Inl e, os')
         | (Inr _, os') \<Rightarrow> validate_dirs_of api rest os')
      else validate_dirs_of api rest os)"

fun validate_directories :: "'os os_api \<Rightarrow> user_cfg list \<Rightarrow> 'os \<Rightarrow> (error + unit) \<times> 'os" where
  "validate_directories api [] os = (Inr (), os)"
| "validate_directories api (user_cfg # rest) os =
     (case validate_dirs_of api (get_default (cfg_directories user_cfg) []) os of
        (Inl e, os') \<Rightarrow> (Inl e, os')
      | (Inr _, os') \<Rightarrow> validate_directories api rest os')"

text \<open>
  The loop of \<^verbatim>\<open>setup_server\<close> over the user records.  Its state is the global
  \<open>USER_DIR_MAP\<close> and the table of the authorizer under construction.
\<close>

fun register_users ::
  "user_cfg list \<Rightarrow> user_dir_map \<Rightarrow> user_table \<Rightarrow> (error + unit) \<times> user_dir_map \<times> user_table" where
  "register_users [] udm tbl = (Inr (), udm, tbl)"
| "register_users (user_cfg # rest) udm tbl =
     (case cfg_username user_cfg of
        None \<Rightarrow> (Inl (KeyError ''username''), udm, tbl)
      | Some username \<Rightarrow>
          let password_hash = get_default (cfg_password_hash user_cfg) [];
              permissions = get_default (cfg_permissions user_cfg) ''elr'';
              directories = get_default (cfg_directories user_cfg) [];
              udm' = udm(username \<mapsto> directories);
              first_dir = (case directories of [] \<Rightarrow> None | (name, path) # others \<Rightarrow> Some path);
              homedir = (case first_dir of
                           None \<Rightarrow> normpath ''.''
                         | Some d \<Rightarrow> if d \<noteq> [] then normpath d else normpath ''.'')
          in (case add_user tbl username password_hash homedir permissions of
                (Inl e, tbl') \<Rightarrow> (Inl e, udm', tbl')
              | (Inr _, tbl') \<Rightarrow> register_users rest udm' tbl'))"

text \<open>
  The state outside the function: the global mount registry and the operating system.
  The server that \<open>setup_server\<close> returns holds the authorizer's table and the handler's
  and server's settings.
\<close>

record 'os world =
  USER_DIR_MAP :: user_dir_map
  os_state :: 'os

record server =
  authorizer :: user_table
  banner :: string
  passive_ports :: "int list option"
  address :: "string \<times> int"
  max_cons :: int
  max_cons_per_ip :: int

definition setup_server ::
  "'os os_api \<Rightarrow> config \<Rightarrow> 'os world \<Rightarrow> (error + server) \<times> 'os world" where
  "setup_server api cfg w =
     (let users = get_default (cfg_users cfg) [] in
      case validate_directories api users (os_state w) of
        (Inl e, os1) \<Rightarrow> (Inl e, w\<lparr>os_state := os1\<rparr>)
      | (Inr _, os1) \<Rightarrow>
          (case register_users users (USER_DIR_MAP w) Map.empty of
             (Inl e, udm, tbl) \<Rightarrow> (Inl e, \<lparr>USER_DIR_MAP = udm, os_state = os1\<rparr>)
           | (Inr _, udm, tbl) \<Rightarrow>
               let pp = get_default (cfg_passive_ports cfg) [60000, 65535];
                   ports = (if length pp = 2 then Some [pp ! 0 ..  pp ! 1] else None);
                   host = get_default (cfg_host cfg) ''0.0.0.0'';
                   port = get_default (cfg_port cfg) 2121
               in (case ftpserver_bind api os1 (host, port) of
                     (Inl e, os2) \<Rightarrow> (Inl e, \<lparr>USER_DIR_MAP = udm, os_state = os2\<rparr>)
                   | (Inr _, os2) \<Rightarrow>
                       (Inr \<lparr>authorizer = tbl,
                             banner = get_default (cfg_banner cfg) ''Welcome to FKFTP Server.'',
                             passive_ports = ports,
                             address = (host, port),
                             max_cons = get_default (cfg_max_connections cfg) 256,
                             max_cons_per_ip = get_default (cfg_max_connections_per_ip cfg) 5\<rparr>,
                        \<lparr>USER_DIR_MAP = udm, os_state = os2\<rparr>))))"

text \<open>
  For the statements about the bootstrap: the registry write that the loop does for one
  record, and what makes a record pass \<open>add_user\<close> when its name is new.
\<close>

definition register_dirs :: "user_dir_map \<Rightarrow> user_cfg \<Rightarrow> user_dir_map" where
  "register_dirs udm user_cfg =
     (case cfg_username user_cfg of
        None \<Rightarrow> udm
      | Some username \<Rightarrow> udm(username \<mapsto> get_default (cfg_directories user_cfg) []))"

definition valid_user_cfg :: "user_cfg \<Rightarrow> bool" where
  "valid_user_cfg user_cfg =
     (case cfg_username user_cfg of
        None \<Rightarrow> False
      | Some username \<Rightarrow>
          check_permissions username (get_default (cfg_permissions user_cfg) ''elr'') = Inr ())"

section \<open>A small operating system for concrete runs\<close>

text \<open>
  The state is the list of the directories that exist (all of them empty) and the list of
  the addresses that have a listening socket.
\<close>

record toy_os =
  dirs :: "string list"
  bound :: "(string \<times> int) list"

definition toy_api :: "toy_os os_api" where
  "toy_api =
     \<lparr>os_path_isdir = (\<lambda>os p. p \<in> set (dirs os)),
      os_makedirs = (\<lambda>os p. (Inr (), os\<lparr>dirs := p # dirs os\<rparr>)),
      os_rmdir = (\<lambda>os p.
        if p \<in> set (dirs os) then (Inr (), os\<lparr>dirs := removeAll p (dirs os)\<rparr>)
        else (Inl (OSError ''No such file or directory''), os)),
      ftpserver_bind = (\<lambda>os a.
        if a \<in> set (bound os) then (Inl (OSError ''Address already in use''), os)
        else (Inr (), os\<lparr>bound := a # bound os\<rparr>))\<rparr>"

section \<open>Properties\<close>

lemma split_on_not_Nil: "split_on c s \<noteq> []"
  by (induction s) auto


subsection \<open>The loops as existence statements\<close>

lemma is_mount_root_iff:
  "is_mount_root bases p = (\<exists>b \<in> set bases. normcase p = normcase (normpath b))"
  by (induction bases) auto

lemma validpath_loop_iff:
  "validpath_loop bases p =
     (\<exists>b \<in> set bases. normcase p = normcase (normpath b)
        \<or> startswith (normcase p) (normcase (normpath b) @ sep))"
  by (induction bases) (auto simp: Let_def)

lemma under_mount_iff:
  "under_mount bases p =
     (\<exists>b \<in> set bases. p = normcase (normpath b) \<or> startswith p (normcase (normpath b) @ sep))"
  by (induction bases) (auto simp: Let_def)

lemma operm_for_None_iff:
  "operm_for ops p = None \<longleftrightarrow>
     (\<forall>(d, operm, recursive) \<in> set ops. p \<noteq> d \<and> \<not> (recursive \<and> startswith p (d @ sep)))"
  by (induction ops p rule: operm_for.induct) auto

subsection \<open>Permission checks fail closed\<close>

text \<open>
  C1.  For a registered user, a path that is not \<^verbatim>\<open>"/"\<close>, that no override governs
  (it is not the override's directory and, for a recursive override, not below it) and
  that is neither a mount's normalised real path nor that path followed by a separator
  and more, is denied every permission character, whatever the base permission string
  holds.
\<close>

theorem has_perm_fail_closed:
  assumes "tbl username = Some u"
    and "path \<noteq> ''/''"
    and "\<forall>(d, operm, recursive) \<in> set (operms u).
           normcase path \<noteq> d \<and> \<not> (recursive \<and> startswith (normcase path) (d @ sep))"
    and "\<forall>real_base \<in> set (map snd (dict_get udm username [])).
           normcase path \<noteq> normcase (normpath real_base)
           \<and> \<not> startswith (normcase path) (normcase (normpath real_base) @ sep)"
  shows "has_perm udm tbl username p (Some path) = Inr False"
proof -
  have no_override: "operm_for (operms u) (normcase path) = None"
    using assms(3) by (simp add: operm_for_None_iff)
  have no_mount: "\<not> under_mount (map snd (dict_get udm username [])) (normcase path)"
    using assms(4) by (auto simp: under_mount_iff)
  show ?thesis
    using assms(1,2) no_override no_mount by (simp add: has_perm_def Let_def)
qed

theorem has_perm_fail_closed_witness:
  "has_perm [''u'' \<mapsto> [(''docs'', ''/d'')]]
     [''u'' \<mapsto> \<lparr>pwd = [], home = ''/d'', perm = ''elr'', operms = [],
                  msg_login = ''Login successful.'', msg_quit = ''Goodbye.''\<rparr>]
     ''u'' CHR ''r'' (Some ''/other'') = Inr False
   \<and> CHR ''r'' \<in> set ''elr''"
proof -
  let ?u = "\<lparr>pwd = [], home = ''/d'', perm = ''elr'', operms = [],
             msg_login = ''Login successful.'', msg_quit = ''Goodbye.''\<rparr>"
  let ?tbl = "[''u'' \<mapsto> ?u]"
  let ?udm = "[''u'' \<mapsto> [(''docs'', ''/d'')]]"
  have h1: "?tbl ''u'' = Some ?u" by simp
  have h2: "''/other'' \<noteq> ''/''" by simp
  have h3: "\<forall>(d, operm, recursive) \<in> set (operms ?u).
              normcase ''/other'' \<noteq> d
              \<and> \<not> (recursive \<and> startswith (normcase ''/other'') (d @ sep))"
    by simp
  have n: "normpath ''/d'' = ''/d''" by code_simp
  have h4: "\<forall>real_base \<in> set (map snd (dict_get ?udm ''u'' [])).
              normcase ''/other'' \<noteq> normcase (normpath real_base)
              \<and> \<not> startswith (normcase ''/other'') (normcase (normpath real_base) @ sep)"
    by (simp add: dict_get_def n normcase_def startswith_def sep_def)
  have "has_perm ?udm ?tbl ''u'' CHR ''r'' (Some ''/other'') = Inr False"
    by (rule has_perm_fail_closed [where u = ?u]) (use h1 h2 h3 h4 in blast)+
  then show ?thesis by simp
qed

subsection \<open>The authorization gate of the filesystem\<close>

lemma startswith_iff: "startswith s p \<longleftrightarrow> (\<exists>rest. s = p @ rest)"
  unfolding startswith_def
  by (metis append_eq_conv_conj append_take_drop_id)

text \<open>
  The test that \<open>validpath\<close> computes: the path is \<^verbatim>\<open>"/"\<close>, or its normal form is, up to
  \<open>normcase\<close>, a mount's normalised real path or that path followed by a separator and a
  remainder.  So \<^verbatim>\<open>"/"\<close> is always valid, and \<^verbatim>\<open>/docs2\<close> is not valid under a mount at
  \<^verbatim>\<open>/docs\<close>.
\<close>

lemma validpath_iff:
  "(validpath fs path \<longleftrightarrow>
      path = ''/''
      \<or> (\<exists>real_base \<in> set (map snd (dir_map fs)).
            normcase (normpath path) = normcase (normpath real_base)
            \<or> (\<exists>rest. normcase (normpath path) = normcase (normpath real_base) @ sep @ rest)))
   \<and> validpath fs ''/''
   \<and> \<not> validpath \<lparr>cwd = ''/'', dir_map = [(''docs'', ''/docs'')]\<rparr> ''/docs2''"
proof -
  have general: "validpath fs path \<longleftrightarrow>
      path = ''/''
      \<or> (\<exists>real_base \<in> set (map snd (dir_map fs)).
            normcase (normpath path) = normcase (normpath real_base)
            \<or> (\<exists>rest. normcase (normpath path) = normcase (normpath real_base) @ sep @ rest))"
    by (simp only: validpath_def validpath_loop_iff startswith_iff append_assoc) simp
  have root: "validpath fs ''/''"
    by (simp add: validpath_def)
  have docs2: "\<not> validpath \<lparr>cwd = ''/'', dir_map = [(''docs'', ''/docs'')]\<rparr> ''/docs2''"
    by code_simp
  from general root docs2 show ?thesis by blast
qed

text \<open>
  C2, at a mount whose real path is the root directory.  The real path \<^verbatim>\<open>/\<close> and the
  paths \<^verbatim>\<open>/x\<close> and \<^verbatim>\<open>/usr/lib\<close> are in normal form, and the two paths lie below the
  mount's real path, each being the root directory followed by segments.  \<open>validpath\<close>
  accepts \<^verbatim>\<open>"/"\<close> and rejects both paths: the real path followed by a separator, for
  which the prefix test looks, is \<^verbatim>\<open>//\<close> here.  Under a mount at \<^verbatim>\<open>/srv\<close> the path
  \<^verbatim>\<open>/srv/x\<close> is accepted.
\<close>

theorem validpath_root_mount_rejects_descendants:
  "dir_map (init_filesystem [''u'' \<mapsto> [(''r'', ''/'')]] ''u'') = [(''r'', ''/'')]
   \<and> normpath ''/'' = ''/'' \<and> normpath ''/x'' = ''/x'' \<and> normpath ''/usr/lib'' = ''/usr/lib''
   \<and> validpath (init_filesystem [''u'' \<mapsto> [(''r'', ''/'')]] ''u'') ''/''
   \<and> \<not> validpath (init_filesystem [''u'' \<mapsto> [(''r'', ''/'')]] ''u'') ''/x''
   \<and> \<not> validpath (init_filesystem [''u'' \<mapsto> [(''r'', ''/'')]] ''u'') ''/usr/lib''
   \<and> validpath (init_filesystem [''u'' \<mapsto> [(''s'', ''/srv'')]] ''u'') ''/srv/x''"
  by code_simp

subsection \<open>Mount roots: never removed, always directories\<close>

text \<open>
  C5.  \<open>rmdir\<close> on a path whose normal form is, up to \<open>normcase\<close>, a mount's normalised
  real path returns the error \<^verbatim>\<open>FilesystemError("Cannot remove a mount point.")\<close> and
  leaves the operating system's state as it was, whatever the operating system would
  have done with the directory; on every other path it is the operating system's
  \<^verbatim>\<open>rmdir\<close> on the path as given.
\<close>

theorem rmdir_mount_root:
  "((\<exists>real_base \<in> set (map snd (dir_map fs)).
       normcase (normpath path) = normcase (normpath real_base))
     \<longrightarrow> rmdir api fs os path = (Inl (FilesystemError ''Cannot remove a mount point.''), os))
   \<and> (\<not> (\<exists>real_base \<in> set (map snd (dir_map fs)).
          normcase (normpath path) = normcase (normpath real_base))
     \<longrightarrow> rmdir api fs os path = os_rmdir api os path)"
  by (simp add: rmdir_def is_mount_root_iff Let_def)

theorem rmdir_mount_root_witness:
  "rmdir toy_api \<lparr>cwd = ''/'', dir_map = [(''docs'', ''/srv/docs'')]\<rparr>
      \<lparr>dirs = [''/srv/docs'', ''/srv/docs/sub''], bound = []\<rparr> ''/srv/docs/''
     = (Inl (FilesystemError ''Cannot remove a mount point.''),
        \<lparr>dirs = [''/srv/docs'', ''/srv/docs/sub''], bound = []\<rparr>)
   \<and> os_rmdir toy_api \<lparr>dirs = [''/srv/docs'', ''/srv/docs/sub''], bound = []\<rparr> ''/srv/docs/''
     = (Inl (OSError ''No such file or directory''),
        \<lparr>dirs = [''/srv/docs'', ''/srv/docs/sub''], bound = []\<rparr>)
   \<and> rmdir toy_api \<lparr>cwd = ''/'', dir_map = [(''docs'', ''/srv/docs'')]\<rparr>
      \<lparr>dirs = [''/srv/docs'', ''/srv/docs/sub''], bound = []\<rparr> ''/srv/docs/sub''
     = (Inr (), \<lparr>dirs = [''/srv/docs''], bound = []\<rparr>)"
proof -
  let ?fs = "\<lparr>cwd = ''/'', dir_map = [(''docs'', ''/srv/docs'')]\<rparr>"
  let ?os = "\<lparr>dirs = [''/srv/docs'', ''/srv/docs/sub''], bound = []\<rparr>"
  have n1: "normpath ''/srv/docs/'' = ''/srv/docs''" by code_simp
  have n2: "normpath ''/srv/docs'' = ''/srv/docs''" by code_simp
  have n3: "normpath ''/srv/docs/sub'' = ''/srv/docs/sub''" by code_simp
  have is_root: "\<exists>real_base \<in> set (map snd (dir_map ?fs)).
      normcase (normpath ''/srv/docs/'') = normcase (normpath real_base)"
    by (simp add: n1 n2)
  have not_root: "\<not> (\<exists>real_base \<in> set (map snd (dir_map ?fs)).
      normcase (normpath ''/srv/docs/sub'') = normcase (normpath real_base))"
    by (simp add: n2 n3 normcase_def)
  from rmdir_mount_root [of ?fs "''/srv/docs/''" toy_api ?os] is_root
  have a: "rmdir toy_api ?fs ?os ''/srv/docs/''
             = (Inl (FilesystemError ''Cannot remove a mount point.''), ?os)"
    by blast
  from rmdir_mount_root [of ?fs "''/srv/docs/sub''" toy_api ?os] not_root
  have b: "rmdir toy_api ?fs ?os ''/srv/docs/sub'' = os_rmdir toy_api ?os ''/srv/docs/sub''"
    by blast
  have c: "os_rmdir toy_api ?os ''/srv/docs/sub'' = (Inr (), \<lparr>dirs = [''/srv/docs''], bound = []\<rparr>)"
    by (simp add: toy_api_def)
  have d: "os_rmdir toy_api ?os ''/srv/docs/''
             = (Inl (OSError ''No such file or directory''), ?os)"
    by (simp add: toy_api_def)
  from a b c d show ?thesis by simp
qed

text \<open>
  C9.  \<open>isdir\<close> is true for \<^verbatim>\<open>"/"\<close> and for every path whose normal form is, up to
  \<open>normcase\<close>, a mount's normalised real path, whatever the operating system says of the
  path (also when the directory does not exist); every other path gets the operating
  system's answer.
\<close>

theorem isdir_mount_root:
  "isdir api fs os ''/''
   \<and> ((\<exists>real_base \<in> set (map snd (dir_map fs)).
         normcase (normpath path) = normcase (normpath real_base))
       \<longrightarrow> isdir api fs os path)
   \<and> (path \<noteq> ''/''
       \<and> \<not> (\<exists>real_base \<in> set (map snd (dir_map fs)).
              normcase (normpath path) = normcase (normpath real_base))
       \<longrightarrow> isdir api fs os path = os_path_isdir api os path)"
  by (simp add: isdir_def is_mount_root_iff Let_def)

theorem isdir_mount_root_witness:
  "isdir toy_api \<lparr>cwd = ''/'', dir_map = [(''docs'', ''/srv/docs'')]\<rparr>
      \<lparr>dirs = [''/tmp''], bound = []\<rparr> ''/srv/docs''
   \<and> \<not> os_path_isdir toy_api \<lparr>dirs = [''/tmp''], bound = []\<rparr> ''/srv/docs''
   \<and> isdir toy_api \<lparr>cwd = ''/'', dir_map = [(''docs'', ''/srv/docs'')]\<rparr>
      \<lparr>dirs = [''/tmp''], bound = []\<rparr> ''/tmp''
   \<and> \<not> isdir toy_api \<lparr>cwd = ''/'', dir_map = [(''docs'', ''/srv/docs'')]\<rparr>
      \<lparr>dirs = [''/tmp''], bound = []\<rparr> ''/srv/docs/sub''"
proof -
  let ?fs = "\<lparr>cwd = ''/'', dir_map = [(''docs'', ''/srv/docs'')]\<rparr>"
  let ?os = "\<lparr>dirs = [''/tmp''], bound = []\<rparr>"
  have n2: "normpath ''/srv/docs'' = ''/srv/docs''" by code_simp
  have n3: "normpath ''/srv/docs/sub'' = ''/srv/docs/sub''" by code_simp
  have n4: "normpath ''/tmp'' = ''/tmp''" by code_simp
  have is_root: "\<exists>real_base \<in> set (map snd (dir_map ?fs)).
      normcase (normpath ''/srv/docs'') = normcase (normpath real_base)"
    by simp
  have not_root: "''/tmp'' \<noteq> ''/'' \<and> \<not> (\<exists>real_base \<in> set (map snd (dir_map ?fs)).
      normcase (normpath ''/tmp'') = normcase (normpath real_base))"
    by (simp add: n2 n4 normcase_def)
  have not_root': "''/srv/docs/sub'' \<noteq> ''/'' \<and> \<not> (\<exists>real_base \<in> set (map snd (dir_map ?fs)).
      normcase (normpath ''/srv/docs/sub'') = normcase (normpath real_base))"
    by (simp add: n2 n3 normcase_def)
  from isdir_mount_root [of toy_api ?fs ?os "''/srv/docs''"] is_root
  have a: "isdir toy_api ?fs ?os ''/srv/docs''" by blast
  from isdir_mount_root [of toy_api ?fs ?os "''/tmp''"] not_root
  have b: "isdir toy_api ?fs ?os ''/tmp'' = os_path_isdir toy_api ?os ''/tmp''" by blast
  from isdir_mount_root [of toy_api ?fs ?os "''/srv/docs/sub''"] not_root'
  have c: "isdir toy_api ?fs ?os ''/srv/docs/sub'' = os_path_isdir toy_api ?os ''/srv/docs/sub''"
    by blast
  have d: "\<not> os_path_isdir toy_api ?os ''/srv/docs''" "os_path_isdir toy_api ?os ''/tmp''"
    "\<not> os_path_isdir toy_api ?os ''/srv/docs/sub''"
    by (simp_all add: toy_api_def)
  from a b c d show ?thesis by simp
qed

subsection \<open>Registering the users of a configuration\<close>

lemma add_user_dom:
  "add_user tbl n pw h prm = (Inr x, tbl') \<Longrightarrow> tbl n = None \<and> dom tbl' = insert n (dom tbl)"
  by (auto simp: add_user_def has_user_def split: if_splits sum.splits)

lemma add_user_new:
  "tbl n = None \<Longrightarrow> check_permissions n prm = Inr () \<Longrightarrow>
   \<exists>tbl'. add_user tbl n pw h prm = (Inr (), tbl') \<and> dom tbl' = insert n (dom tbl)"
  by (auto simp: add_user_def has_user_def)

lemma add_user_dup:
  "tbl n \<noteq> None \<Longrightarrow> add_user tbl n pw h prm = (Inl (AuthorizerError_user_exists n), tbl)"
  by (auto simp: add_user_def has_user_def)

lemma register_users_ok:
  "register_users us udm tbl = (Inr x, udm', tbl') \<Longrightarrow>
   distinct (map cfg_username us) \<and> (\<forall>u \<in> set us. \<exists>n. cfg_username u = Some n \<and> tbl n = None)"
proof (induction us arbitrary: udm tbl)
  case Nil
  then show ?case by simp
next
  case (Cons u us)
  from Cons.prems obtain n where n: "cfg_username u = Some n"
    by (cases "cfg_username u") auto
  let ?h = "(case (case get_default (cfg_directories u) [] of [] \<Rightarrow> None | (name, path) # others \<Rightarrow> Some path) of
                           None \<Rightarrow> normpath ''.''
                         | Some d \<Rightarrow> if d \<noteq> [] then normpath d else normpath ''.'')"
  obtain r t where a: "add_user tbl n (get_default (cfg_password_hash u) []) ?h (get_default (cfg_permissions u) ''elr'') = (r, t)"
    by fastforce
  with Cons.prems n obtain y where r: "r = Inr y"
    by (cases r) (auto simp: Let_def)
  from a r add_user_dom have d: "tbl n = None" "dom t = insert n (dom tbl)" by blast+
  from Cons.prems n a r have rest: "register_users us (udm(n \<mapsto> get_default (cfg_directories u) [])) t = (Inr x, udm', tbl')"
    by (simp add: Let_def)
  from Cons.IH[OF rest] have ih: "distinct (map cfg_username us)" "\<forall>u \<in> set us. \<exists>m. cfg_username u = Some m \<and> t m = None"
    by blast+
  from d(2) have tn: "t n \<noteq> None" by blast
  with ih(2) have "Some n \<notin> set (map cfg_username us)"
    by force
  moreover from ih(2) d(2) have "\<forall>u \<in> set us. \<exists>m. cfg_username u = Some m \<and> tbl m = None"
    by (metis domIff insertCI) 
  ultimately show ?case using n d ih by auto
qed

lemma register_users_prefix:
  "\<forall>u \<in> set pre. valid_user_cfg u \<Longrightarrow> distinct (map cfg_username pre) \<Longrightarrow>
   \<forall>u \<in> set pre. \<forall>n. cfg_username u = Some n \<longrightarrow> tbl n = None \<Longrightarrow>
   \<exists>tbl'. register_users (pre @ rest) udm tbl = register_users rest (foldl register_dirs udm pre) tbl'
      \<and> dom tbl' = dom tbl \<union> {n. Some n \<in> set (map cfg_username pre)}"
proof (induction pre arbitrary: udm tbl)
  case Nil
  show ?case by (intro exI[of _ tbl]) simp
next
  case (Cons u pre)
  from Cons.prems(1) obtain n where n: "cfg_username u = Some n"
    and p: "check_permissions n (get_default (cfg_permissions u) ''elr'') = Inr ()"
    by (auto simp: valid_user_cfg_def split: option.splits)
  let ?h = "(case (case get_default (cfg_directories u) [] of [] \<Rightarrow> None | (name, path) # others \<Rightarrow> Some path) of
                           None \<Rightarrow> normpath ''.''
                         | Some d \<Rightarrow> if d \<noteq> [] then normpath d else normpath ''.'')"
  from Cons.prems(3) n have "tbl n = None" by simp
  from add_user_new[of tbl n, OF this p] obtain t where
    t: "add_user tbl n (get_default (cfg_password_hash u) []) ?h (get_default (cfg_permissions u) ''elr'') = (Inr (), t)"
    and dt: "dom t = insert n (dom tbl)" by blast
  have step: "register_users ((u # pre) @ rest) udm tbl = register_users (pre @ rest) (register_dirs udm u) t"
    using n t by (simp add: Let_def register_dirs_def)
  have fresh: "\<forall>v \<in> set pre. \<forall>m. cfg_username v = Some m \<longrightarrow> t m = None"
  proof (intro ballI allI impI)
    fix v m assume v: "v \<in> set pre" and m: "cfg_username v = Some m"
    from Cons.prems(2) n v m have "m \<noteq> n" by force
    moreover from Cons.prems(3) v m have "tbl m = None" by simp
    ultimately show "t m = None" using dt by (metis domIff insertE)
  qed
  from Cons.prems have "\<forall>u \<in> set pre. valid_user_cfg u" "distinct (map cfg_username pre)" by simp_all
  from Cons.IH[OF this fresh, of "register_dirs udm u"] obtain tbl' where
    ih: "register_users (pre @ rest) (register_dirs udm u) t = register_users rest (foldl register_dirs (register_dirs udm u) pre) tbl'"
    and d': "dom tbl' = dom t \<union> {n. Some n \<in> set (map cfg_username pre)}" by blast
  show ?case
    using step ih d' dt n by (intro exI[of _ tbl']) auto
qed

lemma register_users_dup:
  assumes "\<forall>u \<in> set pre. valid_user_cfg u" "distinct (map cfg_username pre)"
    "cfg_username d = Some n" "Some n \<in> set (map cfg_username pre)"
  shows "\<exists>tbl'. register_users (pre @ d # post) udm Map.empty =
     (Inl (AuthorizerError_user_exists n), foldl register_dirs udm (pre @ [d]), tbl')"
proof -
  from register_users_prefix[OF assms(1,2), of Map.empty "d # post" udm] obtain t where
    eq: "register_users (pre @ d # post) udm Map.empty = register_users (d # post) (foldl register_dirs udm pre) t"
    and dt: "dom t = {n. Some n \<in> set (map cfg_username pre)}" by auto
  from dt assms(4) have "t n \<noteq> None" by blast
  from add_user_dup[of t n, OF this] show ?thesis
    using eq assms(3) by (simp add: Let_def register_dirs_def)
qed


lemma two_same_not_distinct:
  assumes "i < j" "j < length us" "f (us ! i) = f (us ! j)"
  shows "\<not> distinct (map f us)"
proof
  assume d: "distinct (map f us)"
  have i: "i < length (map f us)" and j: "j < length (map f us)" using assms(1,2) by simp_all
  have ne: "i \<noteq> j" using assms(1) by simp
  have "map f us ! i \<noteq> map f us ! j"
    using d i j ne by (simp only: distinct_conv_nth) blast
  moreover have "map f us ! i = map f us ! j" using assms by simp
  ultimately show False by blast
qed

lemma first_duplicate:
  assumes "\<not> distinct (map f us)"
  shows "\<exists>pre d post. us = pre @ d # post \<and> distinct (map f pre) \<and> f d \<in> set (map f pre)"
proof -
  from assms have "\<exists>xs y ys. y \<in> set xs \<and> distinct xs \<and> map f us = xs @ y # ys"
    by (simp only: not_distinct_conv_prefix)
  then obtain xs y ys where y: "y \<in> set xs" and dx: "distinct xs"
    and eq: "map f us = xs @ y # ys"
    by (elim exE conjE)
  define pre where "pre = take (length xs) us"
  define rest where "rest = drop (length xs) us"
  have us: "us = pre @ rest" by (simp add: pre_def rest_def)
  have "map f pre = take (length xs) (map f us)" by (simp add: pre_def take_map)
  then have pre: "map f pre = xs" by (simp add: eq)
  have "map f rest = drop (length xs) (map f us)" by (simp add: rest_def drop_map)
  then have rest: "map f rest = y # ys" by (simp add: eq)
  then obtain d post where r: "rest = d # post" by (cases rest) simp_all
  with rest have d: "f d = y" by simp
  have "us = pre @ d # post \<and> distinct (map f pre) \<and> f d \<in> set (map f pre)"
    using us r pre d y dx by simp
  then show ?thesis by (intro exI)
qed

lemma validate_dirs_of_bind:
  "validate_dirs_of (api\<lparr>ftpserver_bind := b\<rparr>) ds os = validate_dirs_of api ds os"
proof (induction ds arbitrary: os)
  case Nil
  show ?case by simp
next
  case (Cons d ds)
  obtain name path where d: "d = (name, path)" by (cases d)
  show ?case unfolding d
    by (simp add: Let_def Cons.IH split: prod.splits sum.splits)
qed

lemma validate_directories_bind:
  "validate_directories (api\<lparr>ftpserver_bind := b\<rparr>) us os = validate_directories api us os"
proof (induction us arbitrary: os)
  case Nil
  show ?case by simp
next
  case (Cons u us)
  show ?case
    by (simp add: validate_dirs_of_bind Cons.IH split: prod.splits sum.splits)
qed


lemma register_users_two_same:
  assumes "i < j" "j < length us" "cfg_username (us ! i) = Some n" "cfg_username (us ! j) = Some n"
  shows "\<exists>e udm' tbl'. register_users us udm tbl = (Inl e, udm', tbl')"
proof -
  obtain r udm' tbl' where res: "register_users us udm tbl = (r, udm', tbl')"
    by (cases "register_users us udm tbl") auto
  have nd: "\<not> distinct (map cfg_username us)"
    using assms by (intro two_same_not_distinct [of i j]) simp_all
  have "\<exists>e. r = Inl e"
  proof (cases r)
    case (Inl e)
    then show ?thesis by simp
  next
    case (Inr x)
    with res have "register_users us udm tbl = (Inr x, udm', tbl')" by simp
    from register_users_ok [OF this] nd show ?thesis by simp
  qed
  with res show ?thesis by auto
qed

subsection \<open>Duplicate user names\<close>

text \<open>
  C8, counterexample.  Two records with one user name do not always end in the
  duplicate-user error.  When
  the first of them has a permission letter that the library does not know, the loop
  over the records stops there with the \<^verbatim>\<open>ValueError\<close> of the permission check; when a
  record before the second of them has no user name, it stops with the \<^verbatim>\<open>KeyError\<close>;
  and when a mount directory cannot be created, the directory validation, which runs
  before the loop, stops with the \<^verbatim>\<open>OSError\<close>.  No socket is bound in any of these.
\<close>

theorem duplicate_user_other_error:
  "setup_server toy_api
      \<lparr>cfg_users = Some
         [\<lparr>cfg_username = Some ''svc'', cfg_password_hash = None,
           cfg_permissions = Some ''x'', cfg_directories = Some [(''a'', ''/srv/a'')]\<rparr>,
          \<lparr>cfg_username = Some ''svc'', cfg_password_hash = None,
           cfg_permissions = Some ''elr'', cfg_directories = Some [(''b'', ''/srv/b'')]\<rparr>],
       cfg_banner = None, cfg_passive_ports = None, cfg_host = None, cfg_port = None,
       cfg_max_connections = None, cfg_max_connections_per_ip = None\<rparr>
      \<lparr>USER_DIR_MAP = Map.empty, os_state = \<lparr>dirs = [], bound = []\<rparr>\<rparr>
     = (Inl (ValueError_no_such_permission CHR ''x''),
        \<lparr>USER_DIR_MAP = [''svc'' \<mapsto> [(''a'', ''/srv/a'')]],
          os_state = \<lparr>dirs = [''/srv/b'', ''/srv/a''], bound = []\<rparr>\<rparr>)
   \<and> setup_server toy_api
      \<lparr>cfg_users = Some
         [\<lparr>cfg_username = Some ''svc'', cfg_password_hash = None,
           cfg_permissions = Some ''elr'', cfg_directories = None\<rparr>,
          \<lparr>cfg_username = None, cfg_password_hash = None,
           cfg_permissions = Some ''elr'', cfg_directories = None\<rparr>,
          \<lparr>cfg_username = Some ''svc'', cfg_password_hash = None,
           cfg_permissions = Some ''elr'', cfg_directories = None\<rparr>],
       cfg_banner = None, cfg_passive_ports = None, cfg_host = None, cfg_port = None,
       cfg_max_connections = None, cfg_max_connections_per_ip = None\<rparr>
      \<lparr>USER_DIR_MAP = Map.empty, os_state = \<lparr>dirs = [], bound = []\<rparr>\<rparr>
     = (Inl (KeyError ''username''),
        \<lparr>USER_DIR_MAP = [''svc'' \<mapsto> []], os_state = \<lparr>dirs = [], bound = []\<rparr>\<rparr>)
   \<and> setup_server
      (toy_api\<lparr>os_makedirs := (\<lambda>os p. (Inl (OSError ''Permission denied''), os))\<rparr>)
      \<lparr>cfg_users = Some
         [\<lparr>cfg_username = Some ''svc'', cfg_password_hash = None,
           cfg_permissions = Some ''elr'', cfg_directories = Some [(''a'', ''/srv/a'')]\<rparr>,
          \<lparr>cfg_username = Some ''svc'', cfg_password_hash = None,
           cfg_permissions = Some ''elr'', cfg_directories = Some [(''b'', ''/srv/b'')]\<rparr>],
       cfg_banner = None, cfg_passive_ports = None, cfg_host = None, cfg_port = None,
       cfg_max_connections = None, cfg_max_connections_per_ip = None\<rparr>
      \<lparr>USER_DIR_MAP = Map.empty, os_state = \<lparr>dirs = [], bound = []\<rparr>\<rparr>
     = (Inl (OSError ''Permission denied''),
        \<lparr>USER_DIR_MAP = Map.empty, os_state = \<lparr>dirs = [], bound = []\<rparr>\<rparr>)"
proof -
  have na: "normpath ''/srv/a'' = ''/srv/a''" by code_simp
  have nb: "normpath ''/srv/b'' = ''/srv/b''" by code_simp
  show ?thesis
    by (simp add: setup_server_def get_default_def toy_api_def na nb add_user_def has_user_def
        read_perms_def write_perms_def)
qed

text \<open>
  C8, as the code has it.  \<open>add_user\<close> returns the duplicate-user error, and leaves the
  table as it was, whenever the name is registered; for a new name with a permission string the library
  accepts it succeeds whatever \<open>homedir\<close> is: no part of it looks at the directory.
  When two records of a configuration have the same user name, \<open>setup_server\<close> returns an
  error, and it returns the same result and state whatever the operation that creates
  and binds the listening socket is, so that operation is never run.  When moreover every
  record has a user name and a permission string that the library accepts, and the
  directories were validated without an error, the error is the duplicate-user error
  for a name that two records share, and the operating system is left in the state in
  which the directory validation left it.
\<close>

theorem duplicate_user_rejected:
  "(has_user tbl username \<longrightarrow>
      add_user tbl username pw homedir prm = (Inl (AuthorizerError_user_exists username), tbl))
   \<and> (\<not> has_user tbl username \<and> check_permissions username prm = Inr () \<longrightarrow>
      fst (add_user tbl username pw homedir prm) = Inr ())
   \<and> (cfg_users cfg = Some users \<and> i < j \<and> j < length users
       \<and> cfg_username (users ! i) = Some n \<and> cfg_username (users ! j) = Some n \<longrightarrow>
      (\<exists>e. fst (setup_server api cfg w) = Inl e)
      \<and> (\<forall>b. setup_server (api\<lparr>ftpserver_bind := b\<rparr>) cfg w = setup_server api cfg w)
      \<and> ((\<forall>u \<in> set users. valid_user_cfg u)
          \<and> validate_directories api users (os_state w) = (Inr (), os1) \<longrightarrow>
          (\<exists>name k l. fst (setup_server api cfg w) = Inl (AuthorizerError_user_exists name)
             \<and> k < l \<and> l < length users
             \<and> cfg_username (users ! k) = Some name \<and> cfg_username (users ! l) = Some name)
          \<and> os_state (snd (setup_server api cfg w)) = os1))"
proof -
  have part1: "has_user tbl username \<longrightarrow>
      add_user tbl username pw homedir prm = (Inl (AuthorizerError_user_exists username), tbl)"
    by (simp add: add_user_def)
  have part2: "\<not> has_user tbl username \<and> check_permissions username prm = Inr () \<longrightarrow>
      fst (add_user tbl username pw homedir prm) = Inr ()"
    by (simp add: add_user_def)
  have part3: "(\<exists>e. fst (setup_server api cfg w) = Inl e)
      \<and> (\<forall>b. setup_server (api\<lparr>ftpserver_bind := b\<rparr>) cfg w = setup_server api cfg w)
      \<and> ((\<forall>u \<in> set users. valid_user_cfg u)
          \<and> validate_directories api users (os_state w) = (Inr (), os1) \<longrightarrow>
          (\<exists>name k l. fst (setup_server api cfg w) = Inl (AuthorizerError_user_exists name)
             \<and> k < l \<and> l < length users
             \<and> cfg_username (users ! k) = Some name \<and> cfg_username (users ! l) = Some name)
          \<and> os_state (snd (setup_server api cfg w)) = os1)"
    if H: "cfg_users cfg = Some users \<and> i < j \<and> j < length users
       \<and> cfg_username (users ! i) = Some n \<and> cfg_username (users ! j) = Some n"
  proof -
    from H have us: "get_default (cfg_users cfg) [] = users" by (simp add: get_default_def)
    from H have ij: "i < j" "j < length users" "cfg_username (users ! i) = Some n"
      "cfg_username (users ! j) = Some n" by simp_all
    from register_users_two_same [OF ij, of "USER_DIR_MAP w" Map.empty]
    obtain e udm' tbl' where
      reg: "register_users users (USER_DIR_MAP w) Map.empty = (Inl e, udm', tbl')"
      by (elim exE)
    obtain r os' where val: "validate_directories api users (os_state w) = (r, os')"
      by (cases "validate_directories api users (os_state w)") auto
    have a: "\<exists>e. fst (setup_server api cfg w) = Inl e"
      by (cases r) (simp_all add: setup_server_def us val reg)
    have b: "\<forall>b. setup_server (api\<lparr>ftpserver_bind := b\<rparr>) cfg w = setup_server api cfg w"
      by (cases r) (simp_all add: setup_server_def us val reg validate_directories_bind)
    have c: "(\<exists>name k l. fst (setup_server api cfg w) = Inl (AuthorizerError_user_exists name)
             \<and> k < l \<and> l < length users
             \<and> cfg_username (users ! k) = Some name \<and> cfg_username (users ! l) = Some name)
          \<and> os_state (snd (setup_server api cfg w)) = os1"
      if V: "(\<forall>u \<in> set users. valid_user_cfg u)
          \<and> validate_directories api users (os_state w) = (Inr (), os1)"
    proof -
      from V have vd: "validate_directories api users (os_state w) = (Inr (), os1)" by simp
      have "\<not> distinct (map cfg_username users)"
        using ij by (intro two_same_not_distinct [of i j]) simp_all
      from first_duplicate [OF this] obtain pre d post where
        split: "users = pre @ d # post" and dist: "distinct (map cfg_username pre)"
        and dup: "cfg_username d \<in> set (map cfg_username pre)" by (elim exE conjE)
      from V split have "valid_user_cfg d" by simp
      then obtain name where name: "cfg_username d = Some name"
        by (cases "cfg_username d") (simp_all add: valid_user_cfg_def)
      from V split have vpre: "\<forall>u \<in> set pre. valid_user_cfg u" by simp
      from dup name have dup': "Some name \<in> set (map cfg_username pre)" by simp
      from register_users_dup [OF vpre dist name dup', of post "USER_DIR_MAP w"] obtain tbl2 where
        reg2: "register_users users (USER_DIR_MAP w) Map.empty =
            (Inl (AuthorizerError_user_exists name),
             foldl register_dirs (USER_DIR_MAP w) (pre @ [d]), tbl2)"
        unfolding split by (elim exE)
      from dup' obtain k where k: "k < length pre" "cfg_username (pre ! k) = Some name"
        by (auto simp: in_set_conv_nth)
      have idx: "k < length pre \<and> length pre < length users
          \<and> cfg_username (users ! k) = Some name
          \<and> cfg_username (users ! length pre) = Some name"
        using k name by (simp add: split nth_append)
      have res: "fst (setup_server api cfg w) = Inl (AuthorizerError_user_exists name)"
        by (simp add: setup_server_def us vd reg2)
      have os: "os_state (snd (setup_server api cfg w)) = os1"
        by (simp add: setup_server_def us vd reg2)
      from res idx have "\<exists>name k l. fst (setup_server api cfg w) = Inl (AuthorizerError_user_exists name)
             \<and> k < l \<and> l < length users
             \<and> cfg_username (users ! k) = Some name \<and> cfg_username (users ! l) = Some name"
        by (intro exI [of _ name] exI [of _ k] exI [of _ "length pre"]) simp
      with os show ?thesis by simp
    qed
    from a b c show ?thesis by simp
  qed
  from part1 part2 part3 show ?thesis by simp
qed

theorem duplicate_user_rejected_witness:
  "fst (setup_server toy_api
          \<lparr>cfg_users = Some
             [\<lparr>cfg_username = Some ''svc'', cfg_password_hash = None,
               cfg_permissions = Some ''elr'', cfg_directories = Some [(''a'', ''/srv/a'')]\<rparr>,
              \<lparr>cfg_username = Some ''svc'', cfg_password_hash = None,
               cfg_permissions = Some ''elrw'', cfg_directories = Some [(''b'', ''/srv/b'')]\<rparr>],
           cfg_banner = None, cfg_passive_ports = None, cfg_host = None, cfg_port = None,
           cfg_max_connections = None, cfg_max_connections_per_ip = None\<rparr>
          \<lparr>USER_DIR_MAP = Map.empty, os_state = \<lparr>dirs = [], bound = []\<rparr>\<rparr>)
     = Inl (AuthorizerError_user_exists ''svc'')
   \<and> bound (os_state (snd (setup_server toy_api
          \<lparr>cfg_users = Some
             [\<lparr>cfg_username = Some ''svc'', cfg_password_hash = None,
               cfg_permissions = Some ''elr'', cfg_directories = Some [(''a'', ''/srv/a'')]\<rparr>,
              \<lparr>cfg_username = Some ''svc'', cfg_password_hash = None,
               cfg_permissions = Some ''elrw'', cfg_directories = Some [(''b'', ''/srv/b'')]\<rparr>],
           cfg_banner = None, cfg_passive_ports = None, cfg_host = None, cfg_port = None,
           cfg_max_connections = None, cfg_max_connections_per_ip = None\<rparr>
          \<lparr>USER_DIR_MAP = Map.empty, os_state = \<lparr>dirs = [], bound = []\<rparr>\<rparr>))) = []
   \<and> add_user [''svc'' \<mapsto> \<lparr>pwd = [], home = ''/srv/a'', perm = ''elr'', operms = [],
                  msg_login = ''Login successful.'', msg_quit = ''Goodbye.''\<rparr>]
        ''svc'' [] ''/srv/b'' ''elrw''
     = (Inl (AuthorizerError_user_exists ''svc''),
        [''svc'' \<mapsto> \<lparr>pwd = [], home = ''/srv/a'', perm = ''elr'', operms = [],
                  msg_login = ''Login successful.'', msg_quit = ''Goodbye.''\<rparr>])
   \<and> fst (add_user Map.empty ''svc'' [] ''/no/such/directory'' ''elr'') = Inr ()"
proof -
  let ?u1 = "\<lparr>cfg_username = Some ''svc'', cfg_password_hash = None,
               cfg_permissions = Some ''elr'', cfg_directories = Some [(''a'', ''/srv/a'')]\<rparr>"
  let ?u2 = "\<lparr>cfg_username = Some ''svc'', cfg_password_hash = None,
               cfg_permissions = Some ''elrw'', cfg_directories = Some [(''b'', ''/srv/b'')]\<rparr>"
  let ?cfg = "\<lparr>cfg_users = Some [?u1, ?u2],
           cfg_banner = None, cfg_passive_ports = None, cfg_host = None, cfg_port = None,
           cfg_max_connections = None, cfg_max_connections_per_ip = None\<rparr>"
  let ?w = "\<lparr>USER_DIR_MAP = Map.empty, os_state = \<lparr>dirs = [], bound = []\<rparr>\<rparr>"
  let ?os1 = "\<lparr>dirs = [''/srv/b'', ''/srv/a''], bound = []\<rparr>"
  let ?usr = "\<lparr>pwd = [], home = ''/srv/a'', perm = ''elr'', operms = [],
                  msg_login = ''Login successful.'', msg_quit = ''Goodbye.''\<rparr>"
  have na: "normpath ''/srv/a'' = ''/srv/a''" by code_simp
  have nb: "normpath ''/srv/b'' = ''/srv/b''" by code_simp
  have dup: "cfg_users ?cfg = Some [?u1, ?u2] \<and> (0::nat) < 1 \<and> 1 < length [?u1, ?u2]
       \<and> cfg_username ([?u1, ?u2] ! 0) = Some ''svc'' \<and> cfg_username ([?u1, ?u2] ! 1) = Some ''svc''"
    by simp
  have valid: "(\<forall>u \<in> set [?u1, ?u2]. valid_user_cfg u)
          \<and> validate_directories toy_api [?u1, ?u2] (os_state ?w) = (Inr (), ?os1)"
    by (simp add: valid_user_cfg_def get_default_def read_perms_def write_perms_def
        toy_api_def na nb)
  note inst = duplicate_user_rejected
    [of "[''svc'' \<mapsto> ?usr]" "''svc''" "[]" "''/srv/b''" "''elrw''" ?cfg "[?u1, ?u2]" 0 1 "''svc''"
        toy_api ?w ?os1]
  note srv = inst [THEN conjunct2, THEN conjunct2, THEN mp, OF dup,
      THEN conjunct2, THEN conjunct2, THEN mp, OF valid]
  from srv obtain name k l where res: "fst (setup_server toy_api ?cfg ?w) = Inl (AuthorizerError_user_exists name)"
    and kl: "k < l" "l < length [?u1, ?u2]" "cfg_username ([?u1, ?u2] ! k) = Some name"
    by (elim conjE exE)
  from kl(1,2) have "k = 0" by simp
  with kl(3) have "name = ''svc''" by simp
  with res have a: "fst (setup_server toy_api ?cfg ?w) = Inl (AuthorizerError_user_exists ''svc'')"
    by simp
  from srv have "os_state (snd (setup_server toy_api ?cfg ?w)) = ?os1" by (elim conjE)
  then have b: "bound (os_state (snd (setup_server toy_api ?cfg ?w))) = []" by simp
  have reg: "has_user [''svc'' \<mapsto> ?usr] ''svc''" by (simp add: has_user_def)
  note c = inst [THEN conjunct1, THEN mp, OF reg]
  have d: "fst (add_user Map.empty ''svc'' [] ''/no/such/directory'' ''elr'') = Inr ()"
    using duplicate_user_rejected
      [of Map.empty "''svc''" "[]" "''/no/such/directory''" "''elr''" ?cfg "[?u1, ?u2]" 0 1 "''svc''"
          toy_api ?w ?os1, THEN conjunct2, THEN conjunct1]
    by (simp add: has_user_def read_perms_def write_perms_def)
  from a b c d show ?thesis by (intro conjI)
qed

lemma dom_register_dirs:
  "dom (register_dirs m u) = dom m \<union> {x. cfg_username u = Some x}"
  by (cases "cfg_username u") (auto simp: register_dirs_def)

lemma dom_foldl_register_dirs:
  "dom (foldl register_dirs m us) = dom m \<union> {x. Some x \<in> set (map cfg_username us)}"
proof (induction us arbitrary: m)
  case Nil
  show ?case by simp
next
  case (Cons u us)
  have "dom (foldl register_dirs m (u # us))
          = dom m \<union> {x. cfg_username u = Some x} \<union> {x. Some x \<in> set (map cfg_username us)}"
    by (simp only: foldl_Cons Cons.IH dom_register_dirs)
  also have "\<dots> = dom m \<union> {x. Some x \<in> set (map cfg_username (u # us))}"
    by auto
  finally show ?case .
qed

subsection \<open>The registry after a failed bootstrap\<close>

text \<open>
  C10.  \<open>setup_server\<close> is not atomic.  When the records before a record \<open>d\<close> register
  without an error and the name of \<open>d\<close> is the name of one of them, \<open>setup_server\<close> fails
  with the duplicate-user error and leaves in \<open>USER_DIR_MAP\<close> the entries of all these
  records and of \<open>d\<close>, written in this order: every record before \<open>d\<close> has an entry, and
  the entry of the shared name is the mount table of \<open>d\<close>, which has replaced the one
  of the first record of that name.
\<close>

theorem setup_server_not_atomic:
  assumes "cfg_users cfg = Some (pre @ d # post)"
    and "\<forall>u \<in> set pre. valid_user_cfg u"
    and "distinct (map cfg_username pre)"
    and "cfg_username d = Some n"
    and "Some n \<in> set (map cfg_username pre)"
    and "validate_directories api (pre @ d # post) (os_state w) = (Inr (), os1)"
  shows "fst (setup_server api cfg w) = Inl (AuthorizerError_user_exists n)
    \<and> USER_DIR_MAP (snd (setup_server api cfg w))
        = foldl register_dirs (USER_DIR_MAP w) (pre @ [d])
    \<and> USER_DIR_MAP (snd (setup_server api cfg w)) n = Some (get_default (cfg_directories d) [])
    \<and> (\<forall>u \<in> set pre. \<exists>m. cfg_username u = Some m
          \<and> m \<in> dom (USER_DIR_MAP (snd (setup_server api cfg w))))"
proof -
  from assms(1) have us: "get_default (cfg_users cfg) [] = pre @ d # post"
    by (simp add: get_default_def)
  from register_users_dup [OF assms(2,3,4,5), of post "USER_DIR_MAP w"] obtain tbl' where
    reg: "register_users (pre @ d # post) (USER_DIR_MAP w) Map.empty =
            (Inl (AuthorizerError_user_exists n),
             foldl register_dirs (USER_DIR_MAP w) (pre @ [d]), tbl')"
    by (elim exE)
  have res: "fst (setup_server api cfg w) = Inl (AuthorizerError_user_exists n)"
    by (simp add: setup_server_def us assms(6) reg)
  have udm: "USER_DIR_MAP (snd (setup_server api cfg w))
               = foldl register_dirs (USER_DIR_MAP w) (pre @ [d])"
    by (simp add: setup_server_def us assms(6) reg)
  have last: "foldl register_dirs (USER_DIR_MAP w) (pre @ [d]) n
                = Some (get_default (cfg_directories d) [])"
    using assms(4) by (simp add: register_dirs_def)
  have all: "\<forall>u \<in> set pre. \<exists>m. cfg_username u = Some m
               \<and> m \<in> dom (foldl register_dirs (USER_DIR_MAP w) (pre @ [d]))"
  proof
    fix u assume u: "u \<in> set pre"
    with assms(2) have "valid_user_cfg u" by simp
    then obtain m where m: "cfg_username u = Some m"
      by (cases "cfg_username u") (simp_all add: valid_user_cfg_def)
    with u have "Some m \<in> set (map cfg_username (pre @ [d]))" by force
    then have "m \<in> dom (foldl register_dirs (USER_DIR_MAP w) (pre @ [d]))"
      by (simp only: dom_foldl_register_dirs) simp
    with m show "\<exists>m. cfg_username u = Some m
        \<and> m \<in> dom (foldl register_dirs (USER_DIR_MAP w) (pre @ [d]))"
      by simp
  qed
  from res udm last all show ?thesis by simp
qed

theorem setup_server_not_atomic_witness:
  "fst (setup_server toy_api
          \<lparr>cfg_users = Some
             [\<lparr>cfg_username = Some ''svc'', cfg_password_hash = None,
               cfg_permissions = Some ''elr'', cfg_directories = Some [(''a'', ''/srv/a'')]\<rparr>,
              \<lparr>cfg_username = Some ''svc'', cfg_password_hash = None,
               cfg_permissions = Some ''elrw'', cfg_directories = Some [(''b'', ''/srv/b'')]\<rparr>],
           cfg_banner = None, cfg_passive_ports = None, cfg_host = None, cfg_port = None,
           cfg_max_connections = None, cfg_max_connections_per_ip = None\<rparr>
          \<lparr>USER_DIR_MAP = Map.empty, os_state = \<lparr>dirs = [], bound = []\<rparr>\<rparr>)
     = Inl (AuthorizerError_user_exists ''svc'')
   \<and> USER_DIR_MAP (snd (setup_server toy_api
          \<lparr>cfg_users = Some
             [\<lparr>cfg_username = Some ''svc'', cfg_password_hash = None,
               cfg_permissions = Some ''elr'', cfg_directories = Some [(''a'', ''/srv/a'')]\<rparr>,
              \<lparr>cfg_username = Some ''svc'', cfg_password_hash = None,
               cfg_permissions = Some ''elrw'', cfg_directories = Some [(''b'', ''/srv/b'')]\<rparr>],
           cfg_banner = None, cfg_passive_ports = None, cfg_host = None, cfg_port = None,
           cfg_max_connections = None, cfg_max_connections_per_ip = None\<rparr>
          \<lparr>USER_DIR_MAP = Map.empty, os_state = \<lparr>dirs = [], bound = []\<rparr>\<rparr>)) ''svc''
     = Some [(''b'', ''/srv/b'')]
   \<and> USER_DIR_MAP \<lparr>USER_DIR_MAP = Map.empty, os_state = \<lparr>dirs = [], bound = []\<rparr>\<rparr> ''svc''
     = None"
proof -
  let ?u1 = "\<lparr>cfg_username = Some ''svc'', cfg_password_hash = None,
               cfg_permissions = Some ''elr'', cfg_directories = Some [(''a'', ''/srv/a'')]\<rparr>"
  let ?u2 = "\<lparr>cfg_username = Some ''svc'', cfg_password_hash = None,
               cfg_permissions = Some ''elrw'', cfg_directories = Some [(''b'', ''/srv/b'')]\<rparr>"
  let ?cfg = "\<lparr>cfg_users = Some [?u1, ?u2],
           cfg_banner = None, cfg_passive_ports = None, cfg_host = None, cfg_port = None,
           cfg_max_connections = None, cfg_max_connections_per_ip = None\<rparr>"
  let ?w = "\<lparr>USER_DIR_MAP = Map.empty, os_state = \<lparr>dirs = [], bound = []\<rparr>\<rparr>"
  let ?os1 = "\<lparr>dirs = [''/srv/b'', ''/srv/a''], bound = []\<rparr>"
  have na: "normpath ''/srv/a'' = ''/srv/a''" by code_simp
  have nb: "normpath ''/srv/b'' = ''/srv/b''" by code_simp
  have h1: "cfg_users ?cfg = Some ([?u1] @ ?u2 # [])" by simp
  have h2: "\<forall>u \<in> set [?u1]. valid_user_cfg u"
    by (simp add: valid_user_cfg_def get_default_def read_perms_def write_perms_def)
  have h3: "distinct (map cfg_username [?u1])" by simp
  have h4: "cfg_username ?u2 = Some ''svc''" by simp
  have h5: "Some ''svc'' \<in> set (map cfg_username [?u1])" by simp
  have h6: "validate_directories toy_api ([?u1] @ ?u2 # []) (os_state ?w) = (Inr (), ?os1)"
    by (simp add: get_default_def toy_api_def na nb)
  note inst = setup_server_not_atomic [OF h1 h2 h3 h4 h5 h6]
  have a: "fst (setup_server toy_api ?cfg ?w) = Inl (AuthorizerError_user_exists ''svc'')"
    using inst [THEN conjunct1] .
  have "USER_DIR_MAP (snd (setup_server toy_api ?cfg ?w)) ''svc''
          = Some (get_default (cfg_directories ?u2) [])"
    using inst [THEN conjunct2, THEN conjunct2, THEN conjunct1] .
  then have b: "USER_DIR_MAP (snd (setup_server toy_api ?cfg ?w)) ''svc'' = Some [(''b'', ''/srv/b'')]"
    by (simp add: get_default_def)
  have c: "USER_DIR_MAP ?w ''svc'' = None" by simp
  from a b c show ?thesis by (intro conjI)
qed

subsection \<open>Authentication failures\<close>

text \<open>
  C7.  \<open>validate_authentication\<close> fails with the reason
  \<^verbatim>\<open>Password not configured. Run hash_password.py first.\<close> for a registered user whose
  stored verifier is empty, with \<^verbatim>\<open>Invalid password hash format.\<close> for a registered user
  whose stored verifier is not empty and holds no \<^verbatim>\<open>$\<close>, and with the generic
  \<^verbatim>\<open>Authentication failed.\<close> for an unknown user; in every case, also on success, the
  authorizer's table is what it was.
\<close>

theorem validate_authentication_failures:
  "(tbl username = Some u \<and> pwd u = [] \<longrightarrow>
      validate_authentication sha256_hex tbl username password =
        (Inl (AuthenticationFailed ''Password not configured. Run hash_password.py first.''), tbl))
   \<and> (tbl username = Some u \<and> pwd u \<noteq> [] \<and> CHR ''$'' \<notin> set (pwd u) \<longrightarrow>
      validate_authentication sha256_hex tbl username password =
        (Inl (AuthenticationFailed ''Invalid password hash format.''), tbl))
   \<and> (tbl username = None \<longrightarrow>
      validate_authentication sha256_hex tbl username password =
        (Inl (AuthenticationFailed ''Authentication failed.''), tbl))
   \<and> snd (validate_authentication sha256_hex tbl username password) = tbl"
proof -
  have a: "tbl username = Some u \<and> pwd u = [] \<longrightarrow>
      validate_authentication sha256_hex tbl username password =
        (Inl (AuthenticationFailed ''Password not configured. Run hash_password.py first.''), tbl)"
    by (simp add: validate_authentication_def)
  have b: "tbl username = Some u \<and> pwd u \<noteq> [] \<and> CHR ''$'' \<notin> set (pwd u) \<longrightarrow>
      validate_authentication sha256_hex tbl username password =
        (Inl (AuthenticationFailed ''Invalid password hash format.''), tbl)"
    by (simp add: validate_authentication_def)
  have c: "tbl username = None \<longrightarrow>
      validate_authentication sha256_hex tbl username password =
        (Inl (AuthenticationFailed ''Authentication failed.''), tbl)"
    by (simp add: validate_authentication_def)
  have d: "snd (validate_authentication sha256_hex tbl username password) = tbl"
    by (simp add: validate_authentication_def Let_def split: option.split prod.split sum.split)
  from a b c d show ?thesis by simp
qed



theorem validate_authentication_failures_witness:
  "validate_authentication toy_digest
      [''empty'' \<mapsto> \<lparr>pwd = [], home = ''/d'', perm = ''elr'', operms = [],
                       msg_login = ''Login successful.'', msg_quit = ''Goodbye.''\<rparr>,
       ''bad'' \<mapsto> \<lparr>pwd = ''nodollarsign'', home = ''/d'', perm = ''elr'', operms = [],
                     msg_login = ''Login successful.'', msg_quit = ''Goodbye.''\<rparr>]
      ''empty'' (str_codepoints ''pw'')
     = (Inl (AuthenticationFailed ''Password not configured. Run hash_password.py first.''),
        [''empty'' \<mapsto> \<lparr>pwd = [], home = ''/d'', perm = ''elr'', operms = [],
                       msg_login = ''Login successful.'', msg_quit = ''Goodbye.''\<rparr>,
         ''bad'' \<mapsto> \<lparr>pwd = ''nodollarsign'', home = ''/d'', perm = ''elr'', operms = [],
                     msg_login = ''Login successful.'', msg_quit = ''Goodbye.''\<rparr>])
   \<and> fst (validate_authentication toy_digest
      [''empty'' \<mapsto> \<lparr>pwd = [], home = ''/d'', perm = ''elr'', operms = [],
                       msg_login = ''Login successful.'', msg_quit = ''Goodbye.''\<rparr>,
       ''bad'' \<mapsto> \<lparr>pwd = ''nodollarsign'', home = ''/d'', perm = ''elr'', operms = [],
                     msg_login = ''Login successful.'', msg_quit = ''Goodbye.''\<rparr>]
      ''bad'' (str_codepoints ''pw''))
     = Inl (AuthenticationFailed ''Invalid password hash format.'')
   \<and> fst (validate_authentication toy_digest
      [''empty'' \<mapsto> \<lparr>pwd = [], home = ''/d'', perm = ''elr'', operms = [],
                       msg_login = ''Login successful.'', msg_quit = ''Goodbye.''\<rparr>,
       ''bad'' \<mapsto> \<lparr>pwd = ''nodollarsign'', home = ''/d'', perm = ''elr'', operms = [],
                     msg_login = ''Login successful.'', msg_quit = ''Goodbye.''\<rparr>]
      ''nobody'' (str_codepoints ''pw''))
     = Inl (AuthenticationFailed ''Authentication failed.'')"
proof -
  let ?e = "\<lparr>pwd = [], home = ''/d'', perm = ''elr'', operms = [],
             msg_login = ''Login successful.'', msg_quit = ''Goodbye.''\<rparr>"
  let ?b = "\<lparr>pwd = ''nodollarsign'', home = ''/d'', perm = ''elr'', operms = [],
             msg_login = ''Login successful.'', msg_quit = ''Goodbye.''\<rparr>"
  let ?tbl = "[''empty'' \<mapsto> ?e, ''bad'' \<mapsto> ?b]"
  have h1: "?tbl ''empty'' = Some ?e \<and> pwd ?e = []" by simp
  have h2: "?tbl ''bad'' = Some ?b \<and> pwd ?b \<noteq> [] \<and> CHR ''$'' \<notin> set (pwd ?b)" by simp
  have h3: "?tbl ''nobody'' = None" by simp
  from validate_authentication_failures
    [of ?tbl "''empty''" ?e toy_digest "(str_codepoints ''pw'')", THEN conjunct1, THEN mp, OF h1]
  have a: "validate_authentication toy_digest ?tbl ''empty'' (str_codepoints ''pw'')
     = (Inl (AuthenticationFailed ''Password not configured. Run hash_password.py first.''), ?tbl)"
    .
  from validate_authentication_failures
    [of ?tbl "''bad''" ?b toy_digest "(str_codepoints ''pw'')", THEN conjunct2, THEN conjunct1, THEN mp, OF h2]
  have b: "validate_authentication toy_digest ?tbl ''bad'' (str_codepoints ''pw'')
     = (Inl (AuthenticationFailed ''Invalid password hash format.''), ?tbl)"
    .
  from validate_authentication_failures
    [of ?tbl "''nobody''" ?b toy_digest "(str_codepoints ''pw'')", THEN conjunct2, THEN conjunct2,
     THEN conjunct1, THEN mp, OF h3]
  have c: "validate_authentication toy_digest ?tbl ''nobody'' (str_codepoints ''pw'')
     = (Inl (AuthenticationFailed ''Authentication failed.''), ?tbl)"
    .
  from a b c show ?thesis by (simp only: fst_conv)
qed

subsection \<open>The password scheme\<close>


























subsection \<open>Splitting, joining and normalising paths\<close>

lemma split_on_no_sep: "c \<notin> set s \<Longrightarrow> split_on c s = [s]"
  by (induction s) auto

lemma split_on_append: "split_on c (a @ c # b) = split_on c a @ split_on c b"
proof (induction a)
  case Nil
  show ?case by simp
next
  case (Cons x xs)
  have ne: "split_on c xs \<noteq> []" by (rule split_on_not_Nil)
  show ?case
  proof (cases "x = c")
    case True
    then show ?thesis by (simp add: Cons.IH)
  next
    case False
    then show ?thesis using ne by (simp add: Cons.IH)
  qed
qed

lemma split_on_parts: "x \<in> set (split_on c s) \<Longrightarrow> c \<notin> set x"
proof (induction s arbitrary: x)
  case Nil
  then show ?case by simp
next
  case (Cons y ys)
  have ne: "split_on c ys \<noteq> []" by (rule split_on_not_Nil)
  then obtain h t where ht: "split_on c ys = h # t" by (cases "split_on c ys") auto
  show ?case
  proof (cases "y = c")
    case True
    with Cons show ?thesis by auto
  next
    case False
    with Cons.prems ht have "x = y # h \<or> x \<in> set t" by simp
    moreover have "c \<notin> set h" using Cons.IH [of h] ht by simp
    moreover have "\<And>z. z \<in> set t \<Longrightarrow> c \<notin> set z" using Cons.IH ht by simp
    ultimately show ?thesis using False by auto
  qed
qed

lemma str_join_Cons:
  "str_join s (x # xs) = (if xs = [] then x else x @ s @ str_join s xs)"
  by (cases xs) simp_all

lemma split_on_join:
  "cs \<noteq> [] \<Longrightarrow> \<forall>x \<in> set cs. c \<notin> set x \<Longrightarrow> split_on c (str_join [c] cs) = cs"
proof (induction cs)
  case Nil
  then show ?case by simp
next
  case (Cons x xs)
  show ?case
  proof (cases "xs = []")
    case True
    with Cons.prems show ?thesis by (simp add: split_on_no_sep)
  next
    case False
    with Cons have ih: "split_on c (str_join [c] xs) = xs" by simp
    have "str_join [c] (x # xs) = x @ c # str_join [c] xs"
      using False by (simp add: str_join_Cons)
    then have "split_on c (str_join [c] (x # xs)) = split_on c x @ split_on c (str_join [c] xs)"
      by (simp only: split_on_append)
    with ih Cons.prems show ?thesis by (simp add: split_on_no_sep)
  qed
qed

lemma join_split_on: "str_join [c] (split_on c s) = s"
proof (induction s)
  case Nil
  show ?case by simp
next
  case (Cons y ys)
  obtain h t where ht: "split_on c ys = h # t"
    using split_on_not_Nil [of c ys] by (cases "split_on c ys") auto
  show ?case
  proof (cases "y = c")
    case True
    with Cons show ?thesis by (simp add: str_join_Cons split_on_not_Nil)
  next
    case False
    from Cons ht have "str_join [c] (h # t) = ys" by simp
    then have "str_join [c] ((y # h) # t) = y # ys"
      by (simp add: str_join_Cons split: if_splits)
    with False ht show ?thesis by simp
  qed
qed

lemma normpath_step_plain: "plain_segment seg \<Longrightarrow> normpath_step ini acc seg = acc @ [seg]"
  by (simp add: normpath_step_def plain_segment_def)

lemma foldl_normpath_step_plain:
  "\<forall>c \<in> set cs. plain_segment c \<Longrightarrow> foldl (normpath_step ini) acc cs = acc @ cs"
  by (induction cs arbitrary: acc) (simp_all add: normpath_step_plain)

lemma normpath_step_keeps_plain:
  assumes "0 < ini" "\<forall>c \<in> set acc. plain_segment c" "CHR ''/'' \<notin> set seg"
  shows "\<forall>c \<in> set (normpath_step ini acc seg). plain_segment c"
proof -
  have last_plain: "acc \<noteq> [] \<Longrightarrow> last acc \<noteq> ''..''"
    using assms(2) last_in_set [of acc] by (auto simp: plain_segment_def)
  have bl: "\<forall>c \<in> set (butlast acc). plain_segment c"
    using assms(2) by (auto dest: in_set_butlastD)
  show ?thesis
  proof (cases "seg = [] \<or> seg = ''.''")
    case True
    then show ?thesis using assms(2) by (simp add: normpath_step_def)
  next
    case False
    show ?thesis
    proof (cases "seg = ''..''")
      case True
      then show ?thesis
        using assms(1,2) last_plain bl by (simp add: normpath_step_def)
    next
      case nd: False
      with False assms(3) have "plain_segment seg" by (simp add: plain_segment_def)
      then show ?thesis using assms(2) by (simp add: normpath_step_plain)
    qed
  qed
qed

lemma foldl_normpath_step_keeps_plain:
  "0 < ini \<Longrightarrow> \<forall>c \<in> set acc. plain_segment c \<Longrightarrow> \<forall>c \<in> set cs. CHR ''/'' \<notin> set c \<Longrightarrow>
   \<forall>c \<in> set (foldl (normpath_step ini) acc cs). plain_segment c"
proof (induction cs arbitrary: acc)
  case Nil
  then show ?case by simp
next
  case (Cons x xs)
  from Cons.prems have "\<forall>c \<in> set (normpath_step ini acc x). plain_segment c"
    by (intro normpath_step_keeps_plain) simp_all
  with Cons show ?case by simp
qed

lemma slashes_eq: "concat (replicate k sep) = replicate k CHR ''/''"
  by (induction k) (simp_all add: sep_def)

lemma str_join_plain_hd:
  assumes "cs \<noteq> []" "\<forall>c \<in> set cs. plain_segment c"
  shows "str_join sep cs \<noteq> [] \<and> hd (str_join sep cs) \<noteq> CHR ''/''"
proof -
  from assms(1) obtain x xs where cs: "cs = x # xs" by (cases cs) auto
  with assms(2) have x: "x \<noteq> []" "CHR ''/'' \<notin> set x" by (simp_all add: plain_segment_def)
  then obtain a t where xa: "x = a # t" by (cases x) auto
  with x(2) have "a \<noteq> CHR ''/''" by auto
  then show ?thesis unfolding cs xa by (simp add: str_join_Cons)
qed

lemma str_join_plain_last:
  assumes "cs \<noteq> []" "\<forall>c \<in> set cs. plain_segment c"
  shows "last (str_join sep cs) \<noteq> CHR ''/''"
  using assms
proof (induction cs)
  case Nil
  then show ?case by simp
next
  case (Cons x xs)
  from Cons.prems have x: "x \<noteq> []" "CHR ''/'' \<notin> set x" by (simp_all add: plain_segment_def)
  show ?case
  proof (cases "xs = []")
    case True
    from x(1) have "last x \<in> set x" by (rule last_in_set)
    with x(2) have "last x \<noteq> CHR ''/''" by auto
    with True show ?thesis by (simp add: str_join_Cons)
  next
    case False
    with Cons have ih: "last (str_join sep xs) \<noteq> CHR ''/''" by simp
    from False Cons.prems have ne: "str_join sep xs \<noteq> []"
      using str_join_plain_hd [of xs] by simp
    show ?thesis using False ih ne by (simp add: str_join_Cons)
  qed
qed

lemma initial_slashes_render:
  assumes "t \<noteq> []" "hd t \<noteq> CHR ''/''" "k = 1 \<or> k = 2"
  shows "initial_slashes (replicate k CHR ''/'' @ t) = k"
proof -
  from assms(1) obtain a t' where t: "t = a # t'" by (cases t) auto
  with assms(2) have a: "a \<noteq> CHR ''/''" by simp
  from assms(3) show ?thesis
  proof
    assume "k = 1"
    then show ?thesis using a by (simp add: t initial_slashes_def startswith_def sep_def)
  next
    assume "k = 2"
    then show ?thesis
      using a by (simp add: t initial_slashes_def startswith_def sep_def numeral_2_eq_2)
  qed
qed

lemma split_on_slashes:
  "split_on CHR ''/'' (replicate k CHR ''/'' @ t) = replicate k [] @ split_on CHR ''/'' t"
  by (induction k) simp_all

lemma foldl_normpath_step_empties:
  "foldl (normpath_step ini) acc (replicate k []) = acc"
  by (induction k) (simp_all add: normpath_step_def)

lemma normpath_root: "normpath ''/'' = ''/''" and normpath_root2: "normpath ''//'' = ''//''"
  by code_simp+

lemma normpath_render:
  assumes "k = 1 \<or> k = 2" "\<forall>c \<in> set cs. plain_segment c"
  shows "normpath (replicate k CHR ''/'' @ str_join sep cs) = replicate k CHR ''/'' @ str_join sep cs"
proof (cases "cs = []")
  case True
  with assms(1) show ?thesis
    by (auto simp: normpath_root normpath_root2 numeral_2_eq_2)
next
  case False
  let ?t = "str_join sep cs"
  let ?p = "replicate k CHR ''/'' @ ?t"
  from str_join_plain_hd [OF False assms(2)] have t: "?t \<noteq> []" "hd ?t \<noteq> CHR ''/''" by simp_all
  have ini: "initial_slashes ?p = k" using t assms(1) by (rule initial_slashes_render)
  have nosep: "\<forall>x \<in> set cs. CHR ''/'' \<notin> set x"
    using assms(2) by (simp add: plain_segment_def)
  have "split_on CHR ''/'' ?t = cs"
    using split_on_join [OF False nosep] by (simp add: sep_def)
  then have sp: "split_on CHR ''/'' ?p = replicate k [] @ cs"
    by (simp add: split_on_slashes)
  have fold: "foldl (normpath_step k) [] (split_on CHR ''/'' ?p) = cs"
    by (simp add: sp foldl_normpath_step_empties foldl_normpath_step_plain assms(2))
  have ne: "?p \<noteq> []" using t by simp
  show ?thesis
    using ne by (simp add: normpath_def ini fold slashes_eq Let_def)
qed

lemma normpath_abs_shape:
  assumes "isabs p"
  shows "\<exists>cs. (\<forall>c \<in> set cs. plain_segment c)
          \<and> normpath p = replicate (initial_slashes p) CHR ''/'' @ str_join sep cs
          \<and> (initial_slashes p = 1 \<or> initial_slashes p = 2)"
proof -
  from assms have ne: "p \<noteq> []" by (auto simp: isabs_def startswith_def sep_def)
  from assms have ini: "initial_slashes p = 1 \<or> initial_slashes p = 2"
    by (simp add: initial_slashes_def isabs_def)
  let ?cs = "foldl (normpath_step (initial_slashes p)) [] (split_on CHR ''/'' p)"
  have plain: "\<forall>c \<in> set ?cs. plain_segment c"
    using ini split_on_parts [of _ "CHR ''/''" p]
    by (intro foldl_normpath_step_keeps_plain) auto
  from ini have pos: "initial_slashes p \<noteq> 0" by auto
  have "normpath p = replicate (initial_slashes p) CHR ''/'' @ str_join sep ?cs"
    using pos by (simp add: normpath_def Let_def slashes_eq ne)
  with plain ini show ?thesis by blast
qed

lemma virtual_path_shape:
  assumes "cs \<noteq> []" "\<forall>c \<in> set cs. plain_segment c"
  shows "\<exists>a t. ''/'' @ str_join sep cs = CHR ''/'' # a # t \<and> a \<noteq> CHR ''/''"
proof -
  from str_join_plain_hd [OF assms] obtain a t where "str_join sep cs = a # t" "a \<noteq> CHR ''/''"
    by (cases "str_join sep cs") auto
  then show ?thesis by simp
qed

lemma ftpnorm_virtual:
  assumes "cs \<noteq> []" "\<forall>c \<in> set cs. plain_segment c"
  shows "ftpnorm fs (''/'' @ str_join sep cs) = ''/'' @ str_join sep cs"
proof -
  let ?v = "''/'' @ str_join sep cs"
  from virtual_path_shape [OF assms] obtain a t where v: "?v = CHR ''/'' # a # t" and a: "a \<noteq> CHR ''/''"
    by blast
  have abs: "isabs ?v" by (simp add: isabs_def startswith_def sep_def)
  have "normpath (replicate 1 CHR ''/'' @ str_join sep cs) = replicate 1 CHR ''/'' @ str_join sep cs"
    using assms(2) by (intro normpath_render) simp_all
  then have norm: "normpath ?v = ?v" by simp
  have strip: "strip_double_slash ?v = ?v" unfolding v using a by simp
  show ?thesis
    by (simp only: ftpnorm_def abs norm strip Let_def if_True not_True_eq_False if_False)
qed

lemma to_absolute_virtual:
  assumes "cs \<noteq> []" "\<forall>c \<in> set cs. plain_segment c"
  shows "to_absolute_ftppath fs (''/'' @ str_join sep cs) = ''/'' @ str_join sep cs"
  unfolding to_absolute_ftppath_def ftpnorm_virtual [OF assms] Let_def
  by (simp add: startswith_def)

lemma parts_virtual:
  assumes "cs \<noteq> []" "\<forall>c \<in> set cs. plain_segment c"
  shows "filter (\<lambda>p. p \<noteq> []) (split_on CHR ''/'' (''/'' @ str_join sep cs)) = cs"
proof -
  have nosep: "\<forall>x \<in> set cs. CHR ''/'' \<notin> set x"
    using assms(2) by (simp add: plain_segment_def)
  have "split_on CHR ''/'' (str_join sep cs) = cs"
    using split_on_join [OF assms(1) nosep] by (simp add: sep_def)
  then have "split_on CHR ''/'' (''/'' @ str_join sep cs) = [] # cs" by simp
  moreover have "filter (\<lambda>p. p \<noteq> []) cs = cs"
    using assms(2) by (simp add: plain_segment_def)
  ultimately show ?thesis by simp
qed

lemma find_mount_loop_self:
  "distinct (map lower names) \<Longrightarrow> n \<in> set names \<Longrightarrow> find_mount_loop names (lower n) = Some n"
  by (induction names) auto

lemma not_endswith_sep:
  assumes "b \<noteq> []" "last b \<noteq> CHR ''/''"
  shows "\<not> endswith b sep"
proof -
  from assms(1) obtain ys y where b: "b = ys @ [y]" by (cases b rule: rev_cases) auto
  with assms(2) have "y \<noteq> CHR ''/''" by simp
  then show ?thesis by (simp add: b endswith_def sep_def)
qed

lemma path_join_plain:
  "b \<noteq> [] \<Longrightarrow> last b \<noteq> CHR ''/'' \<Longrightarrow> \<forall>c \<in> set cs. plain_segment c \<Longrightarrow>
   path_join b cs = (if cs = [] then b else b @ sep @ str_join sep cs)"
proof (induction cs arbitrary: b)
  case Nil
  show ?case by (simp add: path_join_def)
next
  case (Cons c cs)
  from Cons.prems have c: "c \<noteq> []" "CHR ''/'' \<notin> set c" by (simp_all add: plain_segment_def)
  from c obtain a t where ca: "c = a # t" "a \<noteq> CHR ''/''" by (cases c) auto
  have "last c \<in> set c" using c(1) by (rule last_in_set)
  with c(2) have lc: "last c \<noteq> CHR ''/''" by auto
  have step: "join_step b c = b @ sep @ c"
    using Cons.prems(1) not_endswith_sep [OF Cons.prems(1,2)] ca
    by (simp add: join_step_def startswith_def sep_def)
  have ne: "b @ sep @ c \<noteq> []" using c by simp
  have l: "last (b @ sep @ c) \<noteq> CHR ''/''" using c lc by simp
  from Cons.prems have "\<forall>c \<in> set cs. plain_segment c" by simp
  from Cons.IH [OF ne l this] have
    "path_join (b @ sep @ c) cs = (if cs = [] then b @ sep @ c else (b @ sep @ c) @ sep @ str_join sep cs)" .
  moreover have "path_join b (c # cs) = path_join (b @ sep @ c) cs"
    by (simp add: path_join_def step)
  ultimately show ?case by (simp add: str_join_Cons)
qed

lemma replace_char_same: "replace_char c c s = s"
  by (induction s) (simp_all add: replace_char_def)

lemma fs2ftp_loop_first_match:
  assumes "\<forall>(n, b) \<in> set dm. normpath b = b"
    and "\<exists>(n, b) \<in> set dm. R = b \<or> startswith R (b @ sep)"
  shows "\<exists>n b. (n, b) \<in> set dm
          \<and> ((R = b \<and> fs2ftp_loop dm R = ''/'' @ n)
             \<or> (startswith R (b @ sep)
                \<and> fs2ftp_loop dm R = ''/'' @ n @ ''/'' @ lstrip (drop (length b) R) sep))"
  using assms
proof (induction dm)
  case Nil
  then show ?case by simp
next
  case (Cons e dm)
  obtain n b where e: "e = (n, b)" by (cases e)
  from Cons.prems(1) e have nb: "normpath b = b" by simp
  show ?case
  proof (cases "R = b")
    case True
    then have "fs2ftp_loop (e # dm) R = ''/'' @ n"
      by (simp add: e nb normcase_def)
    with True e show ?thesis by auto
  next
    case ne: False
    show ?thesis
    proof (cases "startswith R (b @ sep)")
      case True
      then have "fs2ftp_loop (e # dm) R = ''/'' @ n @ ''/'' @ lstrip (drop (length b) R) sep"
        using ne by (simp add: e nb normcase_def replace_char_same)
      with True e show ?thesis by auto
    next
      case False
      with ne have rest: "fs2ftp_loop (e # dm) R = fs2ftp_loop dm R"
        by (simp add: e nb normcase_def)
      from Cons.prems ne False e have
        "\<forall>(n, b) \<in> set dm. normpath b = b" "\<exists>(n, b) \<in> set dm. R = b \<or> startswith R (b @ sep)"
        by auto
      from Cons.IH [OF this] obtain n' b' where
        "(n', b') \<in> set dm
          \<and> ((R = b' \<and> fs2ftp_loop dm R = ''/'' @ n')
             \<or> (startswith R (b' @ sep)
                \<and> fs2ftp_loop dm R = ''/'' @ n' @ ''/'' @ lstrip (drop (length b') R) sep))"
        by blast
      then show ?thesis unfolding rest by auto
    qed
  qed
qed

lemma mount_path_last:
  assumes "isabs b" "normpath b = b" "b \<noteq> ''/''" "b \<noteq> ''//''"
  shows "b \<noteq> [] \<and> last b \<noteq> CHR ''/''"
proof -
  from normpath_abs_shape [OF assms(1)] obtain cs where
    plain: "\<forall>c \<in> set cs. plain_segment c"
    and shape: "normpath b = replicate (initial_slashes b) CHR ''/'' @ str_join sep cs"
    and k: "initial_slashes b = 1 \<or> initial_slashes b = 2" by blast
  have ne: "cs \<noteq> []"
  proof
    assume "cs = []"
    with shape k assms(2) have "b = ''/'' \<or> b = ''//''" by (auto simp: numeral_2_eq_2)
    with assms(3,4) show False by simp
  qed
  from str_join_plain_hd [OF ne plain] have j: "str_join sep cs \<noteq> []" by simp
  from str_join_plain_last [OF ne plain] have "last (str_join sep cs) \<noteq> CHR ''/''" .
  with j have "last (replicate (initial_slashes b) CHR ''/'' @ str_join sep cs) \<noteq> CHR ''/''"
    by simp
  with shape assms(2) have "last b \<noteq> CHR ''/''" by simp
  moreover from assms(1) have "b \<noteq> []" by (auto simp: isabs_def startswith_def sep_def)
  ultimately show ?thesis by simp
qed

lemma below_mount_segments:
  assumes "isabs b" "b \<noteq> ''/''" "normpath R = R" "R = b @ sep @ rel"
  shows "\<exists>cs. cs \<noteq> [] \<and> (\<forall>c \<in> set cs. plain_segment c) \<and> rel = str_join sep cs"
proof -
  from assms(1) obtain b' where b: "b = CHR ''/'' # b'"
    by (cases b) (auto simp: isabs_def startswith_def sep_def)
  have R: "R = b @ CHR ''/'' # rel" using assms(4) by (simp add: sep_def)
  have absR: "isabs R" unfolding R b by (simp add: isabs_def startswith_def sep_def)
  from normpath_abs_shape [OF absR] obtain csR where
    plain: "\<forall>c \<in> set csR. plain_segment c"
    and shape: "normpath R = replicate (initial_slashes R) CHR ''/'' @ str_join sep csR"
    and k: "initial_slashes R = 1 \<or> initial_slashes R = 2" by blast
  let ?k = "initial_slashes R"
  have neR: "csR \<noteq> []"
  proof
    assume "csR = []"
    with shape k assms(3) have "R = ''/'' \<or> R = ''//''" by (auto simp: numeral_2_eq_2)
    then have "length R \<le> 2" by auto
    moreover from assms(2) b have "b' \<noteq> []" by simp
    then have "3 \<le> length R" unfolding R b by (cases b') simp_all
    ultimately show False by simp
  qed
  have nosep: "\<forall>x \<in> set csR. CHR ''/'' \<notin> set x"
    using plain by (simp add: plain_segment_def)
  have "split_on CHR ''/'' (str_join sep csR) = csR"
    using split_on_join [OF neR nosep] by (simp add: sep_def)
  then have "split_on CHR ''/'' (normpath R) = replicate ?k [] @ csR"
    by (simp add: shape split_on_slashes)
  then have spR: "split_on CHR ''/'' R = replicate ?k [] @ csR" by (simp only: assms(3))
  have spab: "split_on CHR ''/'' R = split_on CHR ''/'' b @ split_on CHR ''/'' rel"
    unfolding R by (rule split_on_append)
  have "split_on CHR ''/'' b = [] # split_on CHR ''/'' b'" by (simp add: b)
  moreover have "split_on CHR ''/'' b' \<noteq> []" by (rule split_on_not_Nil)
  ultimately have lb: "2 \<le> length (split_on CHR ''/'' b)"
    by (cases "split_on CHR ''/'' b'") simp_all
  have "split_on CHR ''/'' rel = drop (length (split_on CHR ''/'' b)) (split_on CHR ''/'' R)"
    by (simp add: spab)
  also have "\<dots> = drop (length (split_on CHR ''/'' b) - ?k) csR"
    using lb k by (auto simp: spR)
  finally have rel: "split_on CHR ''/'' rel = drop (length (split_on CHR ''/'' b) - ?k) csR" .
  have sub: "set (split_on CHR ''/'' rel) \<subseteq> set csR"
    unfolding rel by (rule set_drop_subset)
  have "str_join sep (split_on CHR ''/'' rel) = rel"
    using join_split_on [of "CHR ''/''" rel] by (simp add: sep_def)
  moreover have "split_on CHR ''/'' rel \<noteq> []" by (rule split_on_not_Nil)
  moreover have "\<forall>c \<in> set (split_on CHR ''/'' rel). plain_segment c"
    using sub plain by blast
  ultimately show ?thesis by metis
qed

lemma lstrip_below:
  assumes "cs \<noteq> []" "\<forall>c \<in> set cs. plain_segment c"
  shows "lstrip (drop (length b) (b @ sep @ str_join sep cs)) sep = str_join sep cs"
proof -
  from str_join_plain_hd [OF assms] obtain a t where j: "str_join sep cs = a # t" "a \<noteq> CHR ''/''"
    by (cases "str_join sep cs") auto
  then show ?thesis by (simp add: lstrip_def sep_def)
qed

lemma ftp2fs_virtual:
  assumes "plain_segment n" "\<forall>c \<in> set cs. plain_segment c"
    and "find_mount fs n = Some m" "map_of (dir_map fs) m = Some b"
  shows "ftp2fs fs (''/'' @ str_join sep (n # cs))
           = Inr (if cs \<noteq> [] then normpath (path_join b cs) else b)"
proof -
  define v where "v = ''/'' @ str_join sep (n # cs)"
  have ne: "n # cs \<noteq> []" by simp
  have plain: "\<forall>c \<in> set (n # cs). plain_segment c" using assms(1,2) by simp
  have abs: "to_absolute_ftppath fs v = v"
    unfolding v_def by (rule to_absolute_virtual [OF ne plain])
  have norm: "ftpnorm fs v = v"
    unfolding v_def by (rule ftpnorm_virtual [OF ne plain])
  have parts: "filter (\<lambda>p. p \<noteq> []) (split_on CHR ''/'' v) = n # cs"
    unfolding v_def by (rule parts_virtual [OF ne plain])
  from virtual_path_shape [OF ne plain] have notroot: "v \<noteq> ''/''"
    unfolding v_def by auto
  have res: "resolve fs v = (Some m, cs)"
    by (simp add: resolve_def norm parts assms(3))
  have "ftp2fs fs v = Inr (if cs \<noteq> [] then normpath (path_join b cs) else b)"
    by (simp add: ftp2fs_def abs norm notroot res assms(4))
  then show ?thesis unfolding v_def .
qed

subsection \<open>Path translation\<close>

text \<open>
  C3, at a mount whose real path is the root directory.  The virtual path \<^verbatim>\<open>/r/x\<close>
  names the mount \<^verbatim>\<open>r\<close>, its translation is \<^verbatim>\<open>/x\<close>, below the mount's real path
  \<^verbatim>\<open>/\<close>, and \<open>validpath\<close> rejects it: the prefix test looks for the real path followed
  by a separator, which is \<^verbatim>\<open>//\<close> here.
\<close>

theorem ftp2fs_root_mount_not_valid:
  "find_mount (init_filesystem [''u'' \<mapsto> [(''r'', ''/'')]] ''u'') ''r'' = Some ''r''
   \<and> ftp2fs (init_filesystem [''u'' \<mapsto> [(''r'', ''/'')]] ''u'') ''/r/x'' = Inr ''/x''
   \<and> \<not> validpath (init_filesystem [''u'' \<mapsto> [(''r'', ''/'')]] ''u'') ''/x''"
  by code_simp

text \<open>
  C4, at a mount whose real path is the root directory.  The real path \<^verbatim>\<open>/x\<close> is in
  normal form and lies below the mount's real path \<^verbatim>\<open>/\<close>.  \<open>fs2ftp\<close> finds no mount
  for it, since its prefix test looks for \<^verbatim>\<open>//\<close>, and returns the virtual root, which
  \<open>ftp2fs\<close> translates to \<^verbatim>\<open>/\<close>: the round trip gives \<^verbatim>\<open>/\<close>, not \<^verbatim>\<open>/x\<close>.  The
  virtual path of \<^verbatim>\<open>/x\<close> under this mount would be \<^verbatim>\<open>/r/x\<close>, which \<open>ftp2fs\<close> translates
  to \<^verbatim>\<open>/x\<close>; and the mount's real path itself makes the round trip.
\<close>

theorem round_trip_root_mount_fails:
  "dir_map (init_filesystem [''u'' \<mapsto> [(''r'', ''/'')]] ''u'') = [(''r'', ''/'')]
   \<and> normpath ''/'' = ''/'' \<and> normpath ''/x'' = ''/x''
   \<and> fs2ftp (init_filesystem [''u'' \<mapsto> [(''r'', ''/'')]] ''u'') ''/x'' = ''/''
   \<and> ftp2fs (init_filesystem [''u'' \<mapsto> [(''r'', ''/'')]] ''u'')
        (fs2ftp (init_filesystem [''u'' \<mapsto> [(''r'', ''/'')]] ''u'') ''/x'')
      = Inr ''/''
   \<and> ftp2fs (init_filesystem [''u'' \<mapsto> [(''r'', ''/'')]] ''u'') ''/r/x'' = Inr ''/x''
   \<and> ftp2fs (init_filesystem [''u'' \<mapsto> [(''r'', ''/'')]] ''u'')
        (fs2ftp (init_filesystem [''u'' \<mapsto> [(''r'', ''/'')]] ''u'') ''/'')
      = Inr ''/''"
  by code_simp

text \<open>
  Away from the root directory the round trip holds.  Let the mount names be plain
  segments that stay different when lower-cased, and the real paths of the mounts be
  absolute, in normal form, and neither \<^verbatim>\<open>/\<close> nor \<^verbatim>\<open>//\<close>.  Then for every real path
  \<open>R\<close> in normal form that is a mount's real path, or that path followed by a separator
  and more, translating \<open>R\<close> to a virtual path and back gives \<open>R\<close>, whatever the current
  directory is.
\<close>

lemma round_trip_inside_mounts:
  assumes "\<forall>(n, b) \<in> set (dir_map fs).
             plain_segment n \<and> isabs b \<and> normpath b = b \<and> b \<noteq> ''/'' \<and> b \<noteq> ''//''"
    and "distinct (map lower (map fst (dir_map fs)))"
    and "normpath R = R"
    and "\<exists>(n, b) \<in> set (dir_map fs). R = b \<or> startswith R (b @ sep)"
  shows "ftp2fs fs (fs2ftp fs R) = Inr R"
proof -
  from assms(1) have normal: "\<forall>(n, b) \<in> set (dir_map fs). normpath b = b" by auto
  from fs2ftp_loop_first_match [OF normal assms(4)] obtain n b where
    nb: "(n, b) \<in> set (dir_map fs)"
    and cases: "(R = b \<and> fs2ftp_loop (dir_map fs) R = ''/'' @ n)
       \<or> (startswith R (b @ sep)
           \<and> fs2ftp_loop (dir_map fs) R = ''/'' @ n @ ''/'' @ lstrip (drop (length b) R) sep)"
    by blast
  from assms(1) nb have wf: "plain_segment n" "isabs b" "normpath b = b" "b \<noteq> ''/''" "b \<noteq> ''//''"
    by auto
  from nb have "n \<in> set (map fst (dir_map fs))" by force
  with assms(2) have find: "find_mount fs n = Some n"
    unfolding find_mount_def by (rule find_mount_loop_self)
  have "distinct (map fst (dir_map fs))"
  proof (rule ccontr)
    assume "\<not> distinct (map fst (dir_map fs))"
    then have "\<not> distinct (map lower (map fst (dir_map fs)))"
      using distinct_map [of lower "map fst (dir_map fs)"] by blast
    with assms(2) show False by simp
  qed
  from this nb have look: "map_of (dir_map fs) n = Some b" by (rule map_of_is_SomeI)
  have out: "fs2ftp fs R = fs2ftp_loop (dir_map fs) R"
    by (simp add: fs2ftp_def assms(3))
  from cases show ?thesis
  proof
    assume a: "R = b \<and> fs2ftp_loop (dir_map fs) R = ''/'' @ n"
    from a have Rb: "R = b" by (rule conjunct1)
    from a have loop: "fs2ftp_loop (dir_map fs) R = ''/'' @ n" by (rule conjunct2)
    have v: "fs2ftp fs R = ''/'' @ str_join sep [n]"
      unfolding out loop by simp
    have "ftp2fs fs (''/'' @ str_join sep [n]) = Inr b"
      using ftp2fs_virtual [OF wf(1) _ find look, of "[]"] by simp
    then have "ftp2fs fs (fs2ftp fs R) = Inr b" unfolding v .
    with Rb show ?thesis by simp
  next
    assume a: "startswith R (b @ sep)
       \<and> fs2ftp_loop (dir_map fs) R = ''/'' @ n @ ''/'' @ lstrip (drop (length b) R) sep"
    then obtain rel where rel: "R = b @ sep @ rel" by (auto simp: startswith_iff)
    from below_mount_segments [OF wf(2) wf(4) assms(3) rel] obtain cs where
      cs: "cs \<noteq> []" "\<forall>c \<in> set cs. plain_segment c" "rel = str_join sep cs" by blast
    have strip: "lstrip (drop (length b) R) sep = str_join sep cs"
      unfolding rel cs(3) using cs(1,2) by (rule lstrip_below)
    from a have loop: "fs2ftp_loop (dir_map fs) R
        = ''/'' @ n @ ''/'' @ lstrip (drop (length b) R) sep" by (rule conjunct2)
    have v: "fs2ftp fs R = ''/'' @ str_join sep (n # cs)"
      unfolding out loop strip using cs(1) by (simp add: str_join_Cons sep_def)
    from mount_path_last [OF wf(2,3,4,5)] have b: "b \<noteq> []" "last b \<noteq> CHR ''/''" by simp_all
    have "path_join b cs = b @ sep @ str_join sep cs"
      using path_join_plain [OF b cs(2)] cs(1) by simp
    then have join: "path_join b cs = R" by (simp add: rel cs(3))
    have "ftp2fs fs (''/'' @ str_join sep (n # cs)) = Inr (normpath (path_join b cs))"
      using ftp2fs_virtual [OF wf(1) cs(2) find look] cs(1) by simp
    then have "ftp2fs fs (fs2ftp fs R) = Inr (normpath (path_join b cs))" unfolding v .
    then show ?thesis by (simp only: join assms(3))
  qed
qed


lemma round_trip_inside_mounts_example:
  "ftp2fs (init_filesystem [''u'' \<mapsto> [(''projects'', ''/d1''), (''Backup'', ''/d2/'')]] ''u'')
     (fs2ftp (init_filesystem [''u'' \<mapsto> [(''projects'', ''/d1''), (''Backup'', ''/d2/'')]] ''u'')
        ''/d1/x/y.txt'')
     = Inr ''/d1/x/y.txt''
   \<and> fs2ftp (init_filesystem [''u'' \<mapsto> [(''projects'', ''/d1''), (''Backup'', ''/d2/'')]] ''u'')
        ''/d1/x/y.txt'' = ''/projects/x/y.txt''
   \<and> ftp2fs (init_filesystem [''u'' \<mapsto> [(''projects'', ''/d1''), (''Backup'', ''/d2/'')]] ''u'')
     (fs2ftp (init_filesystem [''u'' \<mapsto> [(''projects'', ''/d1''), (''Backup'', ''/d2/'')]] ''u'')
        ''/d2'')
     = Inr ''/d2''"
proof -
  let ?fs = "init_filesystem [''u'' \<mapsto> [(''projects'', ''/d1''), (''Backup'', ''/d2/'')]] ''u''"
  have h1: "\<forall>(n, b) \<in> set (dir_map ?fs).
             plain_segment n \<and> isabs b \<and> normpath b = b \<and> b \<noteq> ''/'' \<and> b \<noteq> ''//''"
    by code_simp
  have h2: "distinct (map lower (map fst (dir_map ?fs)))" by code_simp
  have h3: "normpath ''/d1/x/y.txt'' = ''/d1/x/y.txt''" by code_simp
  have h4: "\<exists>(n, b) \<in> set (dir_map ?fs).
              ''/d1/x/y.txt'' = b \<or> startswith ''/d1/x/y.txt'' (b @ sep)"
    by code_simp
  have h3': "normpath ''/d2'' = ''/d2''" by code_simp
  have h4': "\<exists>(n, b) \<in> set (dir_map ?fs). ''/d2'' = b \<or> startswith ''/d2'' (b @ sep)"
    by code_simp
  have a: "ftp2fs ?fs (fs2ftp ?fs ''/d1/x/y.txt'') = Inr ''/d1/x/y.txt''"
    using h1 h2 h3 h4 by (rule round_trip_inside_mounts)
  have b: "fs2ftp ?fs ''/d1/x/y.txt'' = ''/projects/x/y.txt''" by code_simp
  have c: "ftp2fs ?fs (fs2ftp ?fs ''/d2'') = Inr ''/d2''"
    using h1 h2 h3' h4' by (rule round_trip_inside_mounts)
  from a b c show ?thesis by (intro conjI)
qed

end
